theory Spec2Isabelle
  imports Main "HOL-Library.Word"
begin

section \<open>Subresource integrity checking: the model of \<open>sri.go\<close>\<close>

text \<open>
  Go strings are byte sequences, modelled as \<open>string\<close> (a list of 8-bit characters);
  a \<open>[]byte\<close> is a list of 8-bit words. A nil slice and an empty slice are both the
  empty list (the program only takes their length and ranges over them).
\<close>

type_synonym byte = "8 word"

subsection \<open>The standard library functions the program calls\<close>

subsubsection \<open>\<open>strings.Fields\<close> and \<open>strings.IndexRune\<close>\<close>

text \<open>
  \<open>strings.Fields\<close> splits around runs of white space as \<open>unicode.IsSpace\<close> defines it: the six
  ASCII characters tab, line feed, vertical tab, form feed, carriage return and space, and the
  code points U+0085, U+00A0, U+1680, U+2000 to U+200A, U+2028, U+2029, U+202F, U+205F and
  U+3000, which occur in the byte string in their UTF-8 encoding. The first byte of each such
  encoding is never a continuation byte (0x80 to 0xBF), so Go's decoder always starts a rune
  there, and a byte that starts no white-space rune belongs to a field whatever rune it is part
  of.  \<open>spaceWidth s\<close> is the number of bytes of the white-space rune that \<open>s\<close> starts with, or 0.
\<close>

definition asciiSpace :: "char \<Rightarrow> bool" where
  "asciiSpace c = (c \<in> set [CHR 0x09, CHR 0x0A, CHR 0x0B, CHR 0x0C, CHR 0x0D, CHR 0x20])"

definition unicodeSpaces2 :: "string list" where
  "unicodeSpaces2 = [[CHR 0xC2, CHR 0x85], [CHR 0xC2, CHR 0xA0]]"

definition unicodeSpaces3 :: "string list" where
  "unicodeSpaces3 =
     [[CHR 0xE1, CHR 0x9A, CHR 0x80],
      [CHR 0xE2, CHR 0x80, CHR 0x80], [CHR 0xE2, CHR 0x80, CHR 0x81],
      [CHR 0xE2, CHR 0x80, CHR 0x82], [CHR 0xE2, CHR 0x80, CHR 0x83],
      [CHR 0xE2, CHR 0x80, CHR 0x84], [CHR 0xE2, CHR 0x80, CHR 0x85],
      [CHR 0xE2, CHR 0x80, CHR 0x86], [CHR 0xE2, CHR 0x80, CHR 0x87],
      [CHR 0xE2, CHR 0x80, CHR 0x88], [CHR 0xE2, CHR 0x80, CHR 0x89],
      [CHR 0xE2, CHR 0x80, CHR 0x8A],
      [CHR 0xE2, CHR 0x80, CHR 0xA8], [CHR 0xE2, CHR 0x80, CHR 0xA9],
      [CHR 0xE2, CHR 0x80, CHR 0xAF], [CHR 0xE2, CHR 0x81, CHR 0x9F],
      [CHR 0xE3, CHR 0x80, CHR 0x80]]"

definition spaceWidth :: "string \<Rightarrow> nat" where
  "spaceWidth s =
     (case s of
        [] \<Rightarrow> 0
      | c # _ \<Rightarrow>
          if asciiSpace c then 1
          else if take 2 s \<in> set unicodeSpaces2 then 2
          else if take 3 s \<in> set unicodeSpaces3 then 3
          else 0)"

text \<open>
  The scan of \<open>strings.FieldsFunc\<close>: \<open>skip\<close> counts the bytes still to pass of the white-space
  rune being read, \<open>cur\<close> is the field being read (empty between fields; a field is never empty).
\<close>

fun fieldsScan :: "nat \<Rightarrow> string \<Rightarrow> string \<Rightarrow> string list" where
  "fieldsScan skip cur [] = (if cur = [] then [] else [cur])"
| "fieldsScan (Suc k) cur (c # cs) = fieldsScan k cur cs"
| "fieldsScan 0 cur (c # cs) =
     (case spaceWidth (c # cs) of
        0 \<Rightarrow> fieldsScan 0 (cur @ [c]) cs
      | Suc k \<Rightarrow> (if cur = [] then [] else [cur]) @ fieldsScan k [] cs)"

definition Fields :: "string \<Rightarrow> string list" where
  "Fields s = fieldsScan 0 [] s"

text \<open>
  \<open>strings.IndexRune(s, r)\<close> for an ASCII rune is the index of the first byte equal to it,
  or -1.
\<close>

definition IndexRune :: "string \<Rightarrow> char \<Rightarrow> int" where
  "IndexRune s r = (if r \<in> set s then int (length (takeWhile (\<lambda>c. c \<noteq> r) s)) else - 1)"

subsubsection \<open>\<open>encoding/base64\<close>, the standard encoding, and \<open>encoding/hex\<close>\<close>

definition encodeStd :: string where
  "encodeStd = ''ABCDEFGHIJKLMNOPQRSTUVWXYZabcdefghijklmnopqrstuvwxyz0123456789+/''"

definition padChar :: char where
  "padChar = CHR ''=''"

fun indexOf :: "char \<Rightarrow> string \<Rightarrow> nat \<Rightarrow> nat option" where
  "indexOf c [] i = None"
| "indexOf c (d # ds) i = (if c = d then Some i else indexOf c ds (Suc i))"

text \<open>The decoding table: the 6-bit value of a character of the alphabet, 0xFF for any other.\<close>

definition decodeMap :: "char \<Rightarrow> nat" where
  "decodeMap c = (case indexOf c encodeStd 0 of None \<Rightarrow> 0xFF | Some i \<Rightarrow> i)"

definition isNewline :: "char \<Rightarrow> bool" where
  "isNewline c = (c = CHR 0x0A \<or> c = CHR 0x0D)"

text \<open>
  The bytes of one quantum: \<open>dbuf\<close> holds the 6-bit values read (2, 3 or 4 of them, the rest
  of the buffer is zero), and \<open>dlen - 1\<close> bytes are produced.
\<close>

definition quantumBytes :: "nat list \<Rightarrow> byte list" where
  "quantumBytes dbuf =
     (let d = dbuf @ replicate (4 - length dbuf) 0;
          val = (d ! 0) * 2 ^ 18 + (d ! 1) * 2 ^ 12 + (d ! 2) * 2 ^ 6 + (d ! 3)
      in take (length dbuf - 1)
           [of_nat (val div 2 ^ 16), of_nat (val div 2 ^ 8), of_nat val])"

text \<open>
  \<open>Decode\<close> reads quantum after quantum (\<open>decodeQuantum\<close>); its 8- and 4-character fast paths
  give the same result. \<open>si\<close> is the index of the next input byte, \<open>dbuf\<close> the values read in
  the current quantum. Carriage returns and line feeds are skipped. The result is the bytes
  decoded and, on failure, the offset of the \<open>CorruptInputError\<close>; bytes decoded before the
  failing quantum are kept, as in \<open>dbuf[:n]\<close>.
\<close>

fun decodeFrom :: "nat \<Rightarrow> nat list \<Rightarrow> string \<Rightarrow> byte list \<times> nat option" where
  "decodeFrom si dbuf [] = ([], if dbuf = [] then None else Some (si - length dbuf))"
| "decodeFrom si dbuf (c # cs) =
     (if decodeMap c \<noteq> 0xFF then
        (if length dbuf = 3 then
           (let (bs, err) = decodeFrom (si + 1) [] cs
            in (quantumBytes (dbuf @ [decodeMap c]) @ bs, err))
         else decodeFrom (si + 1) (dbuf @ [decodeMap c]) cs)
      else if isNewline c then decodeFrom (si + 1) dbuf cs
      else if c \<noteq> padChar then ([], Some si)
      else if length dbuf < 2 then ([], Some si)
      else if length dbuf = 2 then
        (let nl = takeWhile isNewline cs; rest = dropWhile isNewline cs;
             si1 = si + 1 + length nl
         in case rest of
              [] \<Rightarrow> ([], Some si1)
            | p # rest1 \<Rightarrow>
                if p \<noteq> padChar then ([], Some (si1 - 1))
                else
                  (let nl2 = takeWhile isNewline rest1; rest2 = dropWhile isNewline rest1
                   in (quantumBytes dbuf,
                       if rest2 \<noteq> [] then Some (si1 + 1 + length nl2) else None)))
      else
        (let nl = takeWhile isNewline cs; rest = dropWhile isNewline cs
         in (quantumBytes dbuf, if rest \<noteq> [] then Some (si + 1 + length nl) else None)))"

definition DecodeString :: "string \<Rightarrow> byte list \<times> nat option" where
  "DecodeString s = decodeFrom 0 [] s"

fun EncodeToString :: "byte list \<Rightarrow> string" where
  "EncodeToString (a # b # c # src) =
     (let val = unat a * 2 ^ 16 + unat b * 2 ^ 8 + unat c
      in [encodeStd ! (val div 2 ^ 18 mod 64), encodeStd ! (val div 2 ^ 12 mod 64),
          encodeStd ! (val div 2 ^ 6 mod 64), encodeStd ! (val mod 64)]
         @ EncodeToString src)"
| "EncodeToString [a, b] =
     (let val = unat a * 2 ^ 16 + unat b * 2 ^ 8
      in [encodeStd ! (val div 2 ^ 18 mod 64), encodeStd ! (val div 2 ^ 12 mod 64),
          encodeStd ! (val div 2 ^ 6 mod 64), padChar])"
| "EncodeToString [a] =
     (let val = unat a * 2 ^ 16
      in [encodeStd ! (val div 2 ^ 18 mod 64), encodeStd ! (val div 2 ^ 12 mod 64),
          padChar, padChar])"
| "EncodeToString [] = []"

definition hextable :: string where
  "hextable = ''0123456789abcdef''"

definition hexEncodeToString :: "byte list \<Rightarrow> string" where
  "hexEncodeToString src =
     concat (map (\<lambda>v. [hextable ! (unat v div 16), hextable ! (unat v mod 16)]) src)"

fun Join :: "string list \<Rightarrow> string \<Rightarrow> string" where
  "Join [] sep = []"
| "Join [e] sep = e"
| "Join (e # es) sep = e @ sep @ Join es sep"

subsection \<open>Hashes: the \<open>hash.Hash\<close> interface\<close>

text \<open>
  A \<open>HashFunc\<close> returns a new \<open>hash.Hash\<close> instance. The table of available algorithms is
  supplied by the caller, so the digest functions are parameters of the model: a \<open>HashFunc\<close> is
  given by what the instances it creates answer to \<open>Size()\<close> and the digest they compute of the
  bytes written to them. An instance is an object on the heap: several places of a \<open>Checker\<close>
  point to the same one. By the contract of \<open>hash.Hash\<close>, \<open>Write\<close> appends to the running hash
  and never returns an error, and \<open>Sum\<close> appends the digest of the bytes written so far to its
  argument without changing the state.
\<close>

record HashFunc =
  hf_Size :: nat
  hf_digest :: "byte list \<Rightarrow> byte list"

record Hash =
  h_func :: HashFunc
  h_written :: "byte list"

datatype error =
    InvalidSubstring string
      \<comment> \<open>\<open>"Invalid subresource integrity substring: %s", field\<close>\<close>
  | InvalidString string
      \<comment> \<open>\<open>"Invalid subresource integrity string (empty?): %s", sri\<close>\<close>
  | UnknownHashType string
      \<comment> \<open>\<open>"Unknown hash type %s", name\<close>\<close>
  | InvalidBase64 nat
      \<comment> \<open>\<open>"Invalid base64 string: %s", err\<close>, with the offset of the \<open>CorruptInputError\<close>\<close>
  | InvalidValue string string nat nat
      \<comment> \<open>\<open>"Value %s is not valid for hash type %s; should be %d bytes, was %d"\<close>\<close>
  | IntegrityFailed string
      \<comment> \<open>\<open>"subresource integrity failed: %s"\<close>, with the joined messages\<close>
  | ErrShortWrite
      \<comment> \<open>\<open>io.ErrShortWrite\<close>\<close>

definition newHash :: "HashFunc \<Rightarrow> Hash" where
  "newHash f = \<lparr>h_func = f, h_written = []\<rparr>"

definition Hash_Size :: "Hash \<Rightarrow> nat" where
  "Hash_Size h = hf_Size (h_func h)"

definition Hash_Sum :: "Hash \<Rightarrow> byte list \<Rightarrow> byte list" where
  "Hash_Sum h b = b @ hf_digest (h_func h) (h_written h)"

definition Hash_Write :: "Hash \<Rightarrow> byte list \<Rightarrow> Hash \<times> nat \<times> error option" where
  "Hash_Write h p = (h\<lparr>h_written := h_written h @ p\<rparr>, length p, None)"

subsection \<open>The checker\<close>

text \<open>
  The heap holds the hash instances; the address of an instance is its index, and
  \<open>hash()\<close> allocates at the end. \<open>c.w\<close> is nil until the constructor sets it to the only hash
  or to an \<open>io.MultiWriter\<close> over all of them. A Go pointer always points to a live object:
  the reads \<open>hp ! a\<close> below are at addresses taken from \<open>c.hashes\<close> and from the writers, which
  are shown to be below the length of the heap (\<open>ran (c_hashes c) = {0..<length hp}\<close> in
  \<open>parsed\<close> and \<open>coIndexed\<close>).
\<close>

type_synonym addr = nat
type_synonym heap = "Hash list"

datatype Writer = NilWriter | HashWriter addr | MultiWriter "addr list"

record Checker =
  c_expected :: "string \<rightharpoonup> string list"
  c_hashes :: "string \<rightharpoonup> addr"
  c_w :: Writer

text \<open>Indexing a Go map of slices: nil, the empty slice, for a missing key.\<close>

definition mapIndex :: "(string \<rightharpoonup> string list) \<Rightarrow> string \<Rightarrow> string list" where
  "mapIndex m k = (case m k of None \<Rightarrow> [] | Some v \<Rightarrow> v)"

definition validateHash :: "Hash \<Rightarrow> string \<Rightarrow> string \<Rightarrow> error option" where
  "validateHash h name val =
     (let (decoded, err) = DecodeString val
      in case err of
           Some e \<Rightarrow> Some (InvalidBase64 e)
         | None \<Rightarrow>
             if length decoded \<noteq> Hash_Size h
             then Some (InvalidValue val name (Hash_Size h) (length decoded))
             else None)"

text \<open>
  \<open>addHash\<close> returns the new hash instance (its address) when it has created one, nil
  (\<open>None\<close>) when the name was already registered.
\<close>

definition addHash ::
  "Checker \<Rightarrow> heap \<Rightarrow> string \<Rightarrow> string \<Rightarrow> (string \<rightharpoonup> HashFunc)
     \<Rightarrow> error + (Checker \<times> heap \<times> addr option)" where
  "addHash c hp name val hashes =
     (case c_hashes c name of
        Some h \<Rightarrow>
          (case validateHash (hp ! h) name val of
             Some err \<Rightarrow> Inl err
           | None \<Rightarrow>
               Inr (c\<lparr>c_expected := (c_expected c)(name \<mapsto> mapIndex (c_expected c) name @ [val])\<rparr>,
                    hp, None))
      | None \<Rightarrow>
          (case hashes name of
             None \<Rightarrow> Inl (UnknownHashType name)
           | Some hash \<Rightarrow>
               (let h = length hp; hp' = hp @ [newHash hash]
                in case validateHash (hp' ! h) name val of
                     Some err \<Rightarrow> Inl err
                   | None \<Rightarrow>
                       Inr (c\<lparr>c_expected := (c_expected c)(name \<mapsto> [val]),
                              c_hashes := (c_hashes c)(name \<mapsto> h)\<rparr>,
                            hp', Some h))))"

text \<open>The loop of \<open>NewCheckerForHashes\<close> over the fields, with the \<open>writers\<close> collected so far.\<close>

fun fieldsLoop ::
  "Checker \<Rightarrow> heap \<Rightarrow> addr list \<Rightarrow> (string \<rightharpoonup> HashFunc) \<Rightarrow> string list
     \<Rightarrow> error + (Checker \<times> heap \<times> addr list)" where
  "fieldsLoop c hp writers hashes [] = Inr (c, hp, writers)"
| "fieldsLoop c hp writers hashes (field # rest) =
     (let idx = IndexRune field (CHR ''-'')
      in if idx = - 1 then Inl (InvalidSubstring field)
         else
           (case addHash c hp (take (nat idx) field) (drop (nat (idx + 1)) field) hashes of
              Inl err \<Rightarrow> Inl err
            | Inr (c', hp', h) \<Rightarrow>
                fieldsLoop c' hp'
                  (case h of Some a \<Rightarrow> writers @ [a] | None \<Rightarrow> writers) hashes rest))"

definition emptyChecker :: Checker where
  "emptyChecker = \<lparr>c_expected = Map.empty, c_hashes = Map.empty, c_w = NilWriter\<rparr>"

definition NewCheckerForHashes ::
  "string \<Rightarrow> (string \<rightharpoonup> HashFunc) \<Rightarrow> error + (Checker \<times> heap)" where
  "NewCheckerForHashes sri hashes =
     (case fieldsLoop emptyChecker [] [] hashes (Fields sri) of
        Inl err \<Rightarrow> Inl err
      | Inr (c, hp, writers) \<Rightarrow>
          if length writers = 0 then Inl (InvalidString sri)
          else if length writers = 1 then Inr (c\<lparr>c_w := HashWriter (writers ! 0)\<rparr>, hp)
          else Inr (c\<lparr>c_w := MultiWriter writers\<rparr>, hp))"

text \<open>
  The two presets. The digest functions of \<open>crypto/sha256\<close>, \<open>crypto/sha512\<close> and
  \<open>crypto/sha1\<close> are parameters; their output sizes are 32, 48, 64 and 20 bytes. The map
  literals of \<open>NewChecker\<close> and \<open>NewCheckerWithSHA1\<close> are named \<open>presetHashes\<close> and
  \<open>presetHashesWithSHA1\<close>.
\<close>

definition presetHashes ::
  "(byte list \<Rightarrow> byte list) \<Rightarrow> (byte list \<Rightarrow> byte list) \<Rightarrow> (byte list \<Rightarrow> byte list)
     \<Rightarrow> (string \<rightharpoonup> HashFunc)" where
  "presetHashes sha256 sha384 sha512 =
     [''sha256'' \<mapsto> \<lparr>hf_Size = 32, hf_digest = sha256\<rparr>,
      ''sha384'' \<mapsto> \<lparr>hf_Size = 48, hf_digest = sha384\<rparr>,
      ''sha512'' \<mapsto> \<lparr>hf_Size = 64, hf_digest = sha512\<rparr>]"

definition NewChecker ::
  "(byte list \<Rightarrow> byte list) \<Rightarrow> (byte list \<Rightarrow> byte list) \<Rightarrow> (byte list \<Rightarrow> byte list)
     \<Rightarrow> string \<Rightarrow> error + (Checker \<times> heap)" where
  "NewChecker sha256 sha384 sha512 sri =
     NewCheckerForHashes sri (presetHashes sha256 sha384 sha512)"

definition presetHashesWithSHA1 ::
  "(byte list \<Rightarrow> byte list) \<Rightarrow> (byte list \<Rightarrow> byte list) \<Rightarrow> (byte list \<Rightarrow> byte list)
     \<Rightarrow> (byte list \<Rightarrow> byte list) \<Rightarrow> (string \<rightharpoonup> HashFunc)" where
  "presetHashesWithSHA1 sha1 sha256 sha384 sha512 =
     [''sha1'' \<mapsto> \<lparr>hf_Size = 20, hf_digest = sha1\<rparr>,
      ''sha256'' \<mapsto> \<lparr>hf_Size = 32, hf_digest = sha256\<rparr>,
      ''sha384'' \<mapsto> \<lparr>hf_Size = 48, hf_digest = sha384\<rparr>,
      ''sha512'' \<mapsto> \<lparr>hf_Size = 64, hf_digest = sha512\<rparr>]"

definition NewCheckerWithSHA1 ::
  "(byte list \<Rightarrow> byte list) \<Rightarrow> (byte list \<Rightarrow> byte list) \<Rightarrow> (byte list \<Rightarrow> byte list)
     \<Rightarrow> (byte list \<Rightarrow> byte list) \<Rightarrow> string \<Rightarrow> error + (Checker \<times> heap)" where
  "NewCheckerWithSHA1 sha1 sha256 sha384 sha512 sri =
     NewCheckerForHashes sri (presetHashesWithSHA1 sha1 sha256 sha384 sha512)"

subsection \<open>Writing and checking\<close>

text \<open>\<open>io.MultiWriter\<close>: each writer in turn; stop at the first error or short write.\<close>

fun multiWrite :: "heap \<Rightarrow> addr list \<Rightarrow> byte list \<Rightarrow> heap \<times> nat \<times> error option" where
  "multiWrite hp [] p = (hp, length p, None)"
| "multiWrite hp (a # ws) p =
     (let (h', n, err) = Hash_Write (hp ! a) p; hp' = hp[a := h']
      in if err \<noteq> None then (hp', n, err)
         else if n \<noteq> length p then (hp', n, Some ErrShortWrite)
         else multiWrite hp' ws p)"

text \<open>
  \<open>Write\<close> returns the byte count and the error of \<open>c.w.Write(b)\<close>, and the heap after it;
  \<open>None\<close> is the panic of calling a method of a nil \<open>c.w\<close>.
\<close>

definition Write :: "Checker \<Rightarrow> heap \<Rightarrow> byte list \<Rightarrow> (heap \<times> nat \<times> error option) option" where
  "Write c hp b =
     (case c_w c of
        NilWriter \<Rightarrow> None
      | HashWriter a \<Rightarrow> (let (h', n, err) = Hash_Write (hp ! a) b in Some (hp[a := h'], n, err))
      | MultiWriter ws \<Rightarrow> Some (multiWrite hp ws b))"

fun contains :: "string list \<Rightarrow> string \<Rightarrow> bool" where
  "contains [] needle = False"
| "contains (straw # haystack) needle = (if straw = needle then True else contains haystack needle)"

definition describeExpected :: "string list \<Rightarrow> string" where
  "describeExpected expected =
     (if length expected = 1 then expected ! 0
      else ''one of ['' @ Join expected '', '' @ '']'')"

definition toHex :: "string list \<Rightarrow> string list" where
  "toHex expected = map (\<lambda>e. hexEncodeToString (fst (DecodeString e))) expected"

text \<open>The body of the loop of \<open>Check\<close> for one entry of \<open>c.hashes\<close>: the messages it appends.\<close>

definition checkEntry :: "Checker \<Rightarrow> heap \<Rightarrow> string \<Rightarrow> addr \<Rightarrow> string list" where
  "checkEntry c hp name hash =
     (let expected = mapIndex (c_expected c) name;
          h = Hash_Sum (hp ! hash) [];
          val = EncodeToString h
      in if \<not> contains expected val then
           [''violated '' @ name @ '' integrity check; was '' @ val @ '', expected ''
              @ describeExpected expected @ '' (a.k.a. was '' @ hexEncodeToString h
              @ '', expected '' @ describeExpected (toHex expected) @ '')'']
         else [])"

text \<open>
  Go ranges over a map in an unspecified order, each key once: the order in which \<open>Check\<close>
  visits the keys of \<open>c.hashes\<close> is the argument \<open>order\<close>, any enumeration of these keys.
\<close>

definition Check :: "Checker \<Rightarrow> heap \<Rightarrow> string list \<Rightarrow> error option" where
  "Check c hp order =
     (let msgs = concat (map (\<lambda>name. case c_hashes c name of
                                        None \<Rightarrow> []
                                      | Some hash \<Rightarrow> checkEntry c hp name hash) order)
      in if length msgs \<noteq> 0 then Some (IntegrityFailed (Join msgs ''; '')) else None)"

definition rangeOrder :: "Checker \<Rightarrow> string list \<Rightarrow> bool" where
  "rangeOrder c order = (distinct order \<and> set order = dom (c_hashes c))"

definition Expected :: "Checker \<Rightarrow> string \<Rightarrow> string list" where
  "Expected c name = mapIndex (c_expected c) name"

text \<open>
  Modelled from the spec: \<open>ExpectedHex\<close> is called by the tests but is not in the source file;
  the spec derives the hex values by decoding each base64 entry of \<open>expectedValues(name)\<close> and
  re-encoding it as hex, which is \<open>toHex\<close> of the source.
\<close>

definition ExpectedHex :: "Checker \<Rightarrow> string \<Rightarrow> string list" where
  "ExpectedHex c name = toHex (Expected c name)"

subsection \<open>Notions used to state the properties\<close>

text \<open>
  A field \<open>name-value\<close> splits at its first \<open>-\<close>; \<open>valuesFor name fs\<close> are the values of the
  fields of \<open>fs\<close> with that name, in the order of \<open>fs\<close>.
\<close>

definition fieldName :: "string \<Rightarrow> string" where
  "fieldName field = takeWhile (\<lambda>c. c \<noteq> CHR ''-'') field"

definition fieldValue :: "string \<Rightarrow> string" where
  "fieldValue field = drop 1 (dropWhile (\<lambda>c. c \<noteq> CHR ''-'') field)"

definition valuesFor :: "string \<Rightarrow> string list \<Rightarrow> string list" where
  "valuesFor name fs = map fieldValue (filter (\<lambda>f. fieldName f = name) fs)"

text \<open>A field that passes the four checks against the table \<open>t\<close>.\<close>

definition fieldOk :: "(string \<rightharpoonup> HashFunc) \<Rightarrow> string \<Rightarrow> bool" where
  "fieldOk t field \<longleftrightarrow>
     CHR ''-'' \<in> set field \<and>
     (case t (fieldName field) of
        None \<Rightarrow> False
      | Some f \<Rightarrow>
          snd (DecodeString (fieldValue field)) = None \<and>
          length (fst (DecodeString (fieldValue field))) = hf_Size f)"

text \<open>
  The state of the loop of \<open>NewCheckerForHashes\<close> after the fields \<open>fs\<close>: the writers are the
  hash instances in the order of their creation, the expected values are those of \<open>fs\<close>, each
  registered name has its own instance, created by the table's \<open>HashFunc\<close> for that name and
  not yet written to, and every value decodes.
\<close>

definition parsed ::
  "(string \<rightharpoonup> HashFunc) \<Rightarrow> string list \<Rightarrow> Checker \<Rightarrow> heap \<Rightarrow> addr list \<Rightarrow> bool" where
  "parsed t fs c hp ws \<longleftrightarrow>
     ws = [0..<length hp] \<and>
     (\<forall>name. c_expected c name =
        (if name \<in> fieldName ` set fs then Some (valuesFor name fs) else None)) \<and>
     dom (c_hashes c) = fieldName ` set fs \<and>
     inj_on (c_hashes c) (dom (c_hashes c)) \<and>
     ran (c_hashes c) = {0..<length hp} \<and>
     (\<forall>name a. c_hashes c name = Some a \<longrightarrow> t name = Some (h_func (hp ! a))) \<and>
     (\<forall>h \<in> set hp. h_written h = []) \<and>
     (\<forall>f \<in> set fs. snd (DecodeString (fieldValue f)) = None)"

text \<open>The encodings of the white-space runes.\<close>

definition isSpaceRune :: "string \<Rightarrow> bool" where
  "isSpaceRune r \<longleftrightarrow>
     (case r of [c] \<Rightarrow> asciiSpace c | _ \<Rightarrow> False) \<or> r \<in> set unicodeSpaces2 \<or> r \<in> set unicodeSpaces3"

text \<open>
  Two toy hashes for concrete runs, as a caller of \<open>NewCheckerForHashes\<close> may supply them:
  the sum of the bytes (one byte) and the number of bytes (two bytes, big-endian); and a hash
  whose output is empty.
\<close>

definition sumDigest :: "byte list \<Rightarrow> byte list" where
  "sumDigest bs = [sum_list bs]"

definition lenDigest :: "byte list \<Rightarrow> byte list" where
  "lenDigest bs = [of_nat (length bs div 256), of_nat (length bs)]"

definition exampleHashes :: "string \<rightharpoonup> HashFunc" where
  "exampleHashes =
     [''sum'' \<mapsto> \<lparr>hf_Size = 1, hf_digest = sumDigest\<rparr>,
      ''len'' \<mapsto> \<lparr>hf_Size = 2, hf_digest = lenDigest\<rparr>]"

definition nullHashFunc :: HashFunc where
  "nullHashFunc = \<lparr>hf_Size = 0, hf_digest = (\<lambda>bs. [])\<rparr>"


text \<open>
  The hash instances a writer forwards to, in order; the state of a hash after \<open>Write(p)\<close>;
  a sequence of calls of \<open>Write\<close>, one per slice, each on the heap the previous one left
  (\<open>None\<close> if one of them panics).
\<close>

fun writerAddrs :: "Writer \<Rightarrow> addr list" where
  "writerAddrs NilWriter = []"
| "writerAddrs (HashWriter a) = [a]"
| "writerAddrs (MultiWriter ws) = ws"

definition appendWritten :: "byte list \<Rightarrow> Hash \<Rightarrow> Hash" where
  "appendWritten p h = h\<lparr>h_written := h_written h @ p\<rparr>"

fun writeAll :: "Checker \<Rightarrow> heap \<Rightarrow> byte list list \<Rightarrow> heap option" where
  "writeAll c hp [] = Some hp"
| "writeAll c hp (b # bs) =
     (case Write c hp b of
        None \<Rightarrow> None
      | Some (hp', n, err) \<Rightarrow> writeAll c hp' bs)"


text \<open>
  The two maps of a checker are co-indexed: they have the same keys, different names have
  different hash instances, the instances on the heap are exactly those of the names, and the
  writer forwards to each instance once.
\<close>

definition coIndexed :: "Checker \<Rightarrow> heap \<Rightarrow> bool" where
  "coIndexed c hp \<longleftrightarrow>
     dom (c_expected c) = dom (c_hashes c) \<and>
     inj_on (c_hashes c) (dom (c_hashes c)) \<and>
     ran (c_hashes c) = {0..<length hp} \<and>
     writerAddrs (c_w c) = [0..<length hp]"


text \<open>The descriptor of the tests \<open>TestExpected\<close> and \<open>TestExpectedHex\<close>.\<close>

definition testDescriptor :: string where
  "testDescriptor =
     CHR 0x0A # ''sha256-y1v31NktLrKLVp1gbS7zjWtYgDICENEw7hKLJHcw4E0='' @
     CHR 0x0A # ''sha384-4QuseiT9WQ+80EDZ/MYTodasdNBTLIC/9G1XmSQDmTjTvDM8q00Vgxa9nMgwUw3j'' @
     CHR 0x0A # ''sha512-xLpYEEen45RJnXxmFACS66+sO/1Xuo192Xq6uIarYI4uE7MZevI2pTyoKUZAFVP9tvfhJTS6YjOJcMc8ckoRkw=='' @
     CHR 0x0A # ''sha256-49hwASqGvw3v5oq2Pu4U2jR2Pv9KCMm2VGFAqCwEXhI='' @
     CHR 0x0A # ''sha384-ixBUOCmT6wnGpEL5AxEsAm9EdJCBj7kF099SUkvIbtB63ydFdgNgXVj784BCcJ2k'' @
     CHR 0x0A # ''sha512-jt9sSgTPOFnKQWLknlJEWjBq6UaOcjZzJOwlSgaEWr1b8IfmBmOMJZ91TmrZzjbUUB211oxxKEjyOBQHeXiDoA=='' @
     [CHR 0x0A]"


section \<open>Properties\<close>

subsection \<open>Splitting a field\<close>

lemma IndexRune_absent: "r \<notin> set s \<Longrightarrow> IndexRune s r = - 1"
  by (simp add: IndexRune_def)

lemma IndexRune_present: "r \<in> set s \<Longrightarrow> IndexRune s r = int (length (takeWhile (\<lambda>c. c \<noteq> r) s))"
  by (simp add: IndexRune_def)

lemma IndexRune_eq_minus1: "IndexRune s r = - 1 \<longleftrightarrow> r \<notin> set s"
  by (simp add: IndexRune_def)

lemma take_name: "take (nat (IndexRune field (CHR ''-''))) field = fieldName field" if "CHR ''-'' \<in> set field"
proof -
  have "take (length (takeWhile (\<lambda>c. c \<noteq> CHR ''-'') field)) field = takeWhile (\<lambda>c. c \<noteq> CHR ''-'') field"
    by (metis append_eq_conv_conj takeWhile_dropWhile_id)
  then show ?thesis using that by (simp add: IndexRune_def fieldName_def)
qed

lemma drop_value: "drop (nat (IndexRune field (CHR ''-'') + 1)) field = fieldValue field" if "CHR ''-'' \<in> set field"
proof -
  have "drop (length (takeWhile (\<lambda>c. c \<noteq> CHR ''-'') field)) field = dropWhile (\<lambda>c. c \<noteq> CHR ''-'') field"
    by (metis append_eq_conv_conj takeWhile_dropWhile_id)
  then have "drop (Suc (length (takeWhile (\<lambda>c. c \<noteq> CHR ''-'') field))) field = drop 1 (dropWhile (\<lambda>c. c \<noteq> CHR ''-'') field)"
    by (metis One_nat_def drop_drop plus_1_eq_Suc add.commute)
  moreover have "nat (int (length (takeWhile (\<lambda>c. c \<noteq> CHR ''-'') field)) + 1) = Suc (length (takeWhile (\<lambda>c. c \<noteq> CHR ''-'') field))"
    by simp
  ultimately show ?thesis using that by (simp add: IndexRune_def fieldValue_def)
qed

text \<open>The loop body as a function of one field.\<close>

lemma fieldsLoop_Cons:
  "fieldsLoop c hp ws t (field # rest) =
     (if CHR ''-'' \<notin> set field then Inl (InvalidSubstring field)
      else case addHash c hp (fieldName field) (fieldValue field) t of
             Inl err \<Rightarrow> Inl err
           | Inr (c', hp', h) \<Rightarrow>
               fieldsLoop c' hp' (case h of Some a \<Rightarrow> ws @ [a] | None \<Rightarrow> ws) t rest)"
  by (simp add: Let_def IndexRune_eq_minus1 take_name drop_value del: fieldsLoop.simps(2) 
       add: fieldsLoop.simps(2)[of c hp ws t field rest])

declare fieldsLoop.simps(2) [simp del]

lemma fieldsLoop_append:
  "fieldsLoop c hp ws t (xs @ ys) =
     (case fieldsLoop c hp ws t xs of
        Inl err \<Rightarrow> Inl err
      | Inr (c', hp', ws') \<Rightarrow> fieldsLoop c' hp' ws' t ys)"
proof (induction xs arbitrary: c hp ws)
  case Nil
  show ?case by simp
next
  case (Cons x xs)
  show ?case
    unfolding append_Cons fieldsLoop_Cons
    by (simp add: Cons.IH split: sum.splits prod.splits)
qed


lemma validateHash_eq:
  "validateHash h name v =
     (case snd (DecodeString v) of
        Some e \<Rightarrow> Some (InvalidBase64 e)
      | None \<Rightarrow>
          if length (fst (DecodeString v)) \<noteq> Hash_Size h
          then Some (InvalidValue v name (Hash_Size h) (length (fst (DecodeString v))))
          else None)"
  by (cases "DecodeString v") (simp add: validateHash_def split: option.splits)

lemma Hash_Size_newHash: "Hash_Size (newHash f) = hf_Size f"
  by (simp add: Hash_Size_def newHash_def)

lemma addHash_registered:
  "c_hashes c name = Some a \<Longrightarrow>
   addHash c hp name v t =
     (case validateHash (hp ! a) name v of
        Some err \<Rightarrow> Inl err
      | None \<Rightarrow>
          Inr (c\<lparr>c_expected := (c_expected c)(name \<mapsto> mapIndex (c_expected c) name @ [v])\<rparr>,
               hp, None))"
  by (simp add: addHash_def)

lemma addHash_unknown:
  "c_hashes c name = None \<Longrightarrow> t name = None \<Longrightarrow> addHash c hp name v t = Inl (UnknownHashType name)"
  by (simp add: addHash_def)

lemma addHash_new:
  "c_hashes c name = None \<Longrightarrow> t name = Some f \<Longrightarrow>
   addHash c hp name v t =
     (case validateHash (newHash f) name v of
        Some err \<Rightarrow> Inl err
      | None \<Rightarrow>
          Inr (c\<lparr>c_expected := (c_expected c)(name \<mapsto> [v]),
                 c_hashes := (c_hashes c)(name \<mapsto> length hp)\<rparr>,
               hp @ [newHash f], Some (length hp)))"
  by (simp add: addHash_def Let_def)

lemma step_cases:
  assumes "fieldsLoop c hp ws t [field] = Inr (c', hp', ws')"
  obtains
    (again) a where "CHR ''-'' \<in> set field" "c_hashes c (fieldName field) = Some a"
      "validateHash (hp ! a) (fieldName field) (fieldValue field) = None"
      "c' = c\<lparr>c_expected := (c_expected c)(fieldName field \<mapsto>
                 mapIndex (c_expected c) (fieldName field) @ [fieldValue field])\<rparr>"
      "hp' = hp" "ws' = ws"
  | (new) f where "CHR ''-'' \<in> set field" "c_hashes c (fieldName field) = None"
      "t (fieldName field) = Some f"
      "validateHash (newHash f) (fieldName field) (fieldValue field) = None"
      "c' = c\<lparr>c_expected := (c_expected c)(fieldName field \<mapsto> [fieldValue field]),
               c_hashes := (c_hashes c)(fieldName field \<mapsto> length hp)\<rparr>"
      "hp' = hp @ [newHash f]" "ws' = ws @ [length hp]"
proof -
  from assms have dash: "CHR ''-'' \<in> set field"
    by (simp add: fieldsLoop_Cons split: if_splits)
  show thesis
  proof (cases "c_hashes c (fieldName field)")
    case (Some a)
    with assms dash show thesis
      by (intro again[of a]) (auto simp: fieldsLoop_Cons addHash_registered split: option.splits)
  next
    case None
    show thesis
    proof (cases "t (fieldName field)")
      case tNone: None
      with None assms dash show thesis
        by (simp add: fieldsLoop_Cons addHash_unknown)
    next
      case (Some f)
      with None assms dash show thesis
        by (intro new[of f]) (auto simp: fieldsLoop_Cons addHash_new split: option.splits)
    qed
  qed
qed

lemma parsedD:
  assumes "parsed t fs c hp ws"
  shows "ws = [0..<length hp]"
    and "\<And>name. c_expected c name =
        (if name \<in> fieldName ` set fs then Some (valuesFor name fs) else None)"
    and "dom (c_hashes c) = fieldName ` set fs"
    and "inj_on (c_hashes c) (dom (c_hashes c))"
    and "ran (c_hashes c) = {0..<length hp}"
    and "\<And>name a. c_hashes c name = Some a \<Longrightarrow> t name = Some (h_func (hp ! a))"
    and "\<And>h. h \<in> set hp \<Longrightarrow> h_written h = []"
    and "\<And>f. f \<in> set fs \<Longrightarrow> snd (DecodeString (fieldValue f)) = None"
  using assms unfolding parsed_def by blast+

lemma parsed_empty: "parsed t [] emptyChecker [] []"
  by (simp add: parsed_def emptyChecker_def)

lemma valuesFor_snoc:
  "valuesFor name (fs @ [f]) = valuesFor name fs @ (if fieldName f = name then [fieldValue f] else [])"
  by (simp add: valuesFor_def)

lemma valuesFor_absent: "name \<notin> fieldName ` set fs \<Longrightarrow> valuesFor name fs = []"
  by (auto simp: valuesFor_def filter_empty_conv)

lemma validateHash_None_decodes: "validateHash h name v = None \<Longrightarrow> snd (DecodeString v) = None"
  by (auto simp: validateHash_eq split: option.splits if_splits)

lemma parsed_step:
  assumes inv: "parsed t fs c hp ws"
    and step: "fieldsLoop c hp ws t [field] = Inr (c', hp', ws')"
  shows "parsed t (fs @ [field]) c' hp' ws'"
proof -
  note I = parsedD[OF inv]
  from step show ?thesis
proof (cases rule: step_cases)
  case (again a)
  from again(2) have "fieldName field \<in> dom (c_hashes c)" by blast
  with I(3) have mem: "fieldName field \<in> fieldName ` set fs"
    by simp
  from I(2) mem have exp: "mapIndex (c_expected c) (fieldName field) = valuesFor (fieldName field) fs"
    by (simp add: mapIndex_def)
  have c'h: "c_hashes c' = c_hashes c" using again(4) by simp
  have 1: "ws' = [0..<length hp']"
    using I(1) again(5,6) by simp
  have 2: "\<forall>name. c_expected c' name =
        (if name \<in> fieldName ` set (fs @ [field]) then Some (valuesFor name (fs @ [field])) else None)"
    using I(2) mem exp again(4) by (auto simp: valuesFor_snoc)
  have 3: "dom (c_hashes c') = fieldName ` set (fs @ [field])"
    using I(3) mem c'h by auto
  have 4: "inj_on (c_hashes c') (dom (c_hashes c'))"
    using I(4) c'h by simp
  have 5: "ran (c_hashes c') = {0..<length hp'}"
    using I(5) c'h again(5) by simp
  have 6: "\<forall>name a. c_hashes c' name = Some a \<longrightarrow> t name = Some (h_func (hp' ! a))"
    using I(6) c'h again(5) by simp
  have 7: "\<forall>h \<in> set hp'. h_written h = []"
    using I(7) again(5) by simp
  have 8: "\<forall>f \<in> set (fs @ [field]). snd (DecodeString (fieldValue f)) = None"
    using I(8) validateHash_None_decodes[OF again(3)] by auto
  from 1 2 3 4 5 6 7 8 show ?thesis
    unfolding parsed_def by blast
next
  case (new f)
  let ?n = "fieldName field"
  from new(2) have "?n \<notin> dom (c_hashes c)" by blast
  with I(3) have notmem: "?n \<notin> fieldName ` set fs"
    by simp
  have 1: "ws' = [0..<length hp']"
    using I(1) new(6,7) by simp
  have 2: "\<forall>name. c_expected c' name =
        (if name \<in> fieldName ` set (fs @ [field]) then Some (valuesFor name (fs @ [field])) else None)"
    using I(2) notmem new(5) by (auto simp: valuesFor_snoc valuesFor_absent)
  have 3: "dom (c_hashes c') = fieldName ` set (fs @ [field])"
    using I(3) new(5) by auto
  have fresh: "length hp \<notin> ran (c_hashes c)"
    using I(5) by simp
  have 4: "inj_on (c_hashes c') (dom (c_hashes c'))"
  proof (rule inj_onI)
    fix x y assume x: "x \<in> dom (c_hashes c')" and y: "y \<in> dom (c_hashes c')"
      and eq: "c_hashes c' x = c_hashes c' y"
    note inj = I(4)
    show "x = y"
    proof (cases "x = ?n")
      case True
      show ?thesis
      proof (rule ccontr)
        assume "x \<noteq> y"
        with True eq new(5) have "c_hashes c y = Some (length hp)" by (simp split: if_splits)
        with fresh show False by (auto simp: ran_def)
      qed
    next
      case False
      show ?thesis
      proof (cases "y = ?n")
        case True
        with False eq new(5) have "c_hashes c x = Some (length hp)" by (simp split: if_splits)
        with fresh show ?thesis by (auto simp: ran_def)
      next
        case yF: False
        with False x y eq new(5) have "x \<in> dom (c_hashes c)" "y \<in> dom (c_hashes c)"
          "c_hashes c x = c_hashes c y" by auto
        then show ?thesis using inj by (auto dest: inj_onD)
      qed
    qed
  qed
  have 5: "ran (c_hashes c') = {0..<length hp'}"
  proof -
    have "ran (c_hashes c') = insert (length hp) (ran (c_hashes c))"
      using new(2,5) by (simp add: ran_map_upd)
    also have "\<dots> = {0..<length hp'}"
      using I(5) new(6) by auto
    finally show ?thesis .
  qed
  have 6: "\<forall>name a. c_hashes c' name = Some a \<longrightarrow> t name = Some (h_func (hp' ! a))"
  proof (intro allI impI)
    fix name a assume h: "c_hashes c' name = Some a"
    show "t name = Some (h_func (hp' ! a))"
    proof (cases "name = ?n")
      case True
      with h new(5) have "a = length hp" by simp
      with True new(3,6) show ?thesis by (simp add: newHash_def)
    next
      case False
      with h new(5) have ca: "c_hashes c name = Some a" by simp
      then have "a \<in> ran (c_hashes c)" by (auto simp: ran_def)
      with I(5) have "a < length hp" by simp
      with I(6)[OF ca] new(6) show ?thesis by (simp add: nth_append)
    qed
  qed
  have 7: "\<forall>h \<in> set hp'. h_written h = []"
    using I(7) new(6) by (auto simp: newHash_def)
  have 8: "\<forall>f \<in> set (fs @ [field]). snd (DecodeString (fieldValue f)) = None"
    using I(8) validateHash_None_decodes[OF new(4)] by auto
  from 1 2 3 4 5 6 7 8 show ?thesis
    unfolding parsed_def by blast
qed
qed

lemma fieldsLoop_snoc_step:
  "fieldsLoop c hp ws t (field # rest) =
     (case fieldsLoop c hp ws t [field] of
        Inl err \<Rightarrow> Inl err
      | Inr (c', hp', ws') \<Rightarrow> fieldsLoop c' hp' ws' t rest)"
  using fieldsLoop_append[of c hp ws t "[field]" rest] by simp

lemma parsed_loop:
  "parsed t fs c hp ws \<Longrightarrow> fieldsLoop c hp ws t fs' = Inr (c', hp', ws')
     \<Longrightarrow> parsed t (fs @ fs') c' hp' ws'"
proof (induction fs' arbitrary: fs c hp ws)
  case Nil
  then show ?case by simp
next
  case (Cons field rest)
  from Cons.prems(2) obtain c1 hp1 ws1 where
    s1: "fieldsLoop c hp ws t [field] = Inr (c1, hp1, ws1)" and
    s2: "fieldsLoop c1 hp1 ws1 t rest = Inr (c', hp', ws')"
    by (subst (asm) fieldsLoop_snoc_step) (auto split: sum.splits)
  from parsed_step[OF Cons.prems(1) s1] have "parsed t (fs @ [field]) c1 hp1 ws1" .
  from Cons.IH[OF this s2] show ?case by simp
qed

lemma parsed_from_empty:
  "fieldsLoop emptyChecker [] [] t fs = Inr (c, hp, ws) \<Longrightarrow> parsed t fs c hp ws"
  using parsed_loop[OF parsed_empty, of t fs c hp ws] by simp


lemma New_Inr:
  assumes "NewCheckerForHashes sri t = Inr (c, hp)"
  obtains c0 ws where "fieldsLoop emptyChecker [] [] t (Fields sri) = Inr (c0, hp, ws)"
    "ws \<noteq> []" "c = c0\<lparr>c_w := (if length ws = 1 then HashWriter (ws ! 0) else MultiWriter ws)\<rparr>"
  using assms
  by (auto simp: NewCheckerForHashes_def split: sum.splits prod.splits if_splits)

lemma New_Inl_loop:
  "fieldsLoop emptyChecker [] [] t (Fields sri) = Inl e \<Longrightarrow> NewCheckerForHashes sri t = Inl e"
  by (simp add: NewCheckerForHashes_def)

lemma New_prefix_error:
  assumes "Fields sri = pre @ field # post"
    and "fieldsLoop emptyChecker [] [] t pre = Inr (c, hp, ws)"
    and "fieldsLoop c hp ws t [field] = Inl e"
  shows "NewCheckerForHashes sri t = Inl e"
proof -
  have "fieldsLoop emptyChecker [] [] t (pre @ [field] @ post) = Inl e"
    using assms(2,3) by (simp only: fieldsLoop_append[of _ _ _ _ pre] fieldsLoop_append[of _ _ _ _ "[field]"]) simp
  then show ?thesis using assms(1) by (simp add: New_Inl_loop)
qed

lemma step_no_dash:
  "CHR ''-'' \<notin> set field \<Longrightarrow> fieldsLoop c hp ws t [field] = Inl (InvalidSubstring field)"
  by (simp add: fieldsLoop_Cons)

lemma step_addHash:
  "CHR ''-'' \<in> set field \<Longrightarrow>
   fieldsLoop c hp ws t [field] =
     (case addHash c hp (fieldName field) (fieldValue field) t of
        Inl err \<Rightarrow> Inl err
      | Inr (c', hp', h) \<Rightarrow> Inr (c', hp', case h of Some a \<Rightarrow> ws @ [a] | None \<Rightarrow> ws))"
  by (simp add: fieldsLoop_Cons split: sum.splits)

text \<open>What a field does to a state reached from the empty checker.\<close>

lemma step_outcome:
  assumes inv: "parsed t fs c hp ws" and dash: "CHR ''-'' \<in> set field"
  shows "fieldsLoop c hp ws t [field] =
     (case t (fieldName field) of
        None \<Rightarrow> Inl (UnknownHashType (fieldName field))
      | Some f \<Rightarrow>
          (case snd (DecodeString (fieldValue field)) of
             Some e \<Rightarrow> Inl (InvalidBase64 e)
           | None \<Rightarrow>
               if length (fst (DecodeString (fieldValue field))) \<noteq> hf_Size f
               then Inl (InvalidValue (fieldValue field) (fieldName field) (hf_Size f)
                           (length (fst (DecodeString (fieldValue field)))))
               else (case c_hashes c (fieldName field) of
                       Some a \<Rightarrow>
                         Inr (c\<lparr>c_expected := (c_expected c)(fieldName field \<mapsto>
                                mapIndex (c_expected c) (fieldName field) @ [fieldValue field])\<rparr>,
                              hp, ws)
                     | None \<Rightarrow>
                         Inr (c\<lparr>c_expected := (c_expected c)(fieldName field \<mapsto> [fieldValue field]),
                                c_hashes := (c_hashes c)(fieldName field \<mapsto> length hp)\<rparr>,
                              hp @ [newHash f], ws @ [length hp]))))"
proof -
  note I = parsedD[OF inv]
  show ?thesis
  proof (cases "c_hashes c (fieldName field)")
    case None
    show ?thesis
    proof (cases "t (fieldName field)")
      case tN: None
      with None dash show ?thesis by (simp add: step_addHash addHash_unknown)
    next
      case (Some f)
      with None dash show ?thesis
        by (simp add: step_addHash addHash_new validateHash_eq Hash_Size_newHash split: option.splits)
    qed
  next
    case (Some a)
    from I(6)[OF Some] have tf: "t (fieldName field) = Some (h_func (hp ! a))" .
    with Some dash show ?thesis
      by (simp add: step_addHash addHash_registered validateHash_eq Hash_Size_def split: option.splits)
  qed
qed


lemma step_ok:
  assumes inv: "parsed t fs c hp ws" and ok: "fieldOk t field"
  shows "\<exists>c' hp' ws'. fieldsLoop c hp ws t [field] = Inr (c', hp', ws')"
  using ok by (auto simp: fieldOk_def step_outcome[OF inv] split: option.splits)

lemma step_Inr_ok:
  assumes inv: "parsed t fs c hp ws" and r: "fieldsLoop c hp ws t [field] = Inr (c', hp', ws')"
  shows "fieldOk t field"
proof -
  from r have dash: "CHR ''-'' \<in> set field"
    by (cases "CHR ''-'' \<in> set field") (simp_all add: step_no_dash)
  from r show ?thesis
    unfolding step_outcome[OF inv dash] fieldOk_def using dash
    by (auto split: option.splits if_splits)
qed

lemma loop_ok:
  "parsed t fs c hp ws \<Longrightarrow> list_all (fieldOk t) fs'
     \<Longrightarrow> \<exists>c' hp' ws'. fieldsLoop c hp ws t fs' = Inr (c', hp', ws')"
proof (induction fs' arbitrary: fs c hp ws)
  case Nil
  show ?case by simp
next
  case (Cons field rest)
  from Cons.prems(2) have ok: "fieldOk t field" and rest: "list_all (fieldOk t) rest" by simp_all
  from step_ok[OF Cons.prems(1) ok] obtain c1 hp1 ws1 where
    s1: "fieldsLoop c hp ws t [field] = Inr (c1, hp1, ws1)" by blast
  from Cons.IH[OF parsed_step[OF Cons.prems(1) s1] rest] obtain c' hp' ws' where
    "fieldsLoop c1 hp1 ws1 t rest = Inr (c', hp', ws')" by blast
  with s1 show ?case by (subst fieldsLoop_snoc_step) simp
qed

lemma loop_ok_empty:
  "list_all (fieldOk t) fs \<Longrightarrow> \<exists>c hp ws. fieldsLoop emptyChecker [] [] t fs = Inr (c, hp, ws)"
  using loop_ok[OF parsed_empty] by blast

lemma parsed_writers_nonempty:
  assumes "parsed t fs c hp ws" "fs \<noteq> []"
  shows "ws \<noteq> []"
proof -
  note I = parsedD[OF assms(1)]
  from assms(2) I(3) obtain n where "n \<in> dom (c_hashes c)" by (cases fs) auto
  then obtain a where "c_hashes c n = Some a" by blast
  then have "a \<in> ran (c_hashes c)" by (auto simp: ran_def)
  with I(5) have "length hp \<noteq> 0" by auto
  with I(1) show ?thesis by (metis length_upt diff_zero list.size(3))
qed

lemma New_succeeds:
  assumes "Fields sri \<noteq> []" "list_all (fieldOk t) (Fields sri)"
  shows "\<exists>c hp. NewCheckerForHashes sri t = Inr (c, hp)"
proof -
  from loop_ok_empty[OF assms(2)] obtain c hp ws where
    l: "fieldsLoop emptyChecker [] [] t (Fields sri) = Inr (c, hp, ws)" by blast
  from parsed_writers_nonempty[OF parsed_from_empty[OF l] assms(1)] have "ws \<noteq> []" .
  with l show ?thesis by (simp add: NewCheckerForHashes_def)
qed


subsection \<open>The constructed checker\<close>

lemma New_parsed:
  assumes "NewCheckerForHashes sri t = Inr (c, hp)"
  obtains c0 ws where "parsed t (Fields sri) c0 hp ws" "ws \<noteq> []"
    "c = c0\<lparr>c_w := (if length ws = 1 then HashWriter (ws ! 0) else MultiWriter ws)\<rparr>"
  using assms by (elim New_Inr) (blast dest: parsed_from_empty)

lemma Expected_valuesFor:
  assumes "NewCheckerForHashes sri t = Inr (c, hp)"
  shows "Expected c name = valuesFor name (Fields sri)"
proof -
  from assms obtain c0 ws where p: "parsed t (Fields sri) c0 hp ws"
    and c: "c = c0\<lparr>c_w := (if length ws = 1 then HashWriter (ws ! 0) else MultiWriter ws)\<rparr>"
    by (rule New_parsed)
  from parsedD(2)[OF p, of name] c show ?thesis
    by (simp add: Expected_def mapIndex_def valuesFor_absent)
qed

lemma hashes_names:
  assumes "NewCheckerForHashes sri t = Inr (c, hp)"
  shows "dom (c_hashes c) = fieldName ` set (Fields sri)"
proof -
  from assms obtain c0 ws where p: "parsed t (Fields sri) c0 hp ws"
    and c: "c = c0\<lparr>c_w := (if length ws = 1 then HashWriter (ws ! 0) else MultiWriter ws)\<rparr>"
    by (rule New_parsed)
  from parsedD(3)[OF p] c show ?thesis by simp
qed

lemma values_decode:
  assumes "NewCheckerForHashes sri t = Inr (c, hp)" "e \<in> set (Expected c name)"
  shows "snd (DecodeString e) = None"
proof -
  from assms(1) obtain c0 ws where p: "parsed t (Fields sri) c0 hp ws"
    by (rule New_parsed)
  from assms(2) obtain f where "f \<in> set (Fields sri)" "e = fieldValue f"
    unfolding Expected_valuesFor[OF assms(1)] valuesFor_def by auto
  with parsedD(8)[OF p] show ?thesis by simp
qed

lemma dash_first: "fieldName (CHR ''-'' # rest) = []" "fieldValue (CHR ''-'' # rest) = rest"
  by (simp_all add: fieldName_def fieldValue_def)

lemma presets_no_empty_name:
  "presetHashes a b d [] = None" "presetHashesWithSHA1 s a b d [] = None"
  by (simp_all add: presetHashes_def presetHashesWithSHA1_def)

lemma name_dash: 
  assumes "CHR ''-'' \<notin> set name"
  shows "fieldName (name @ ''-'') = name" "fieldValue (name @ ''-'') = []"
proof -
  from assms have all: "\<And>x. x \<in> set name \<Longrightarrow> x \<noteq> CHR ''-''" by blast
  have 1: "takeWhile (\<lambda>c. c \<noteq> CHR ''-'') (name @ ''-'') = name"
    using all by (simp add: takeWhile_append2)
  have 2: "dropWhile (\<lambda>c. c \<noteq> CHR ''-'') (name @ ''-'') = ''-''"
    using all by (simp add: dropWhile_append2)
  from 1 show "fieldName (name @ ''-'') = name" by (simp add: fieldName_def)
  from 2 show "fieldValue (name @ ''-'') = []" by (simp add: fieldValue_def)
qed

lemma Decode_empty: "DecodeString [] = ([], None)"
  by (simp add: DecodeString_def)

subsection \<open>White space only\<close>

lemma fieldsScan_skip:
  "length xs = k \<Longrightarrow> fieldsScan k cur (xs @ ys) = fieldsScan 0 cur ys"
proof (induction xs arbitrary: k)
  case Nil
  then show ?case by simp
next
  case (Cons x xs)
  from Cons.prems obtain k' where k: "k = Suc k'" "length xs = k'" by auto
  show ?case unfolding k(1) append_Cons fieldsScan.simps(2) using Cons.IH[OF k(2)] .
qed

lemma spaceWidth_two:
  "r \<in> set unicodeSpaces2 \<Longrightarrow> spaceWidth (r @ s) = 2 \<and> length r = 2"
  unfolding unicodeSpaces2_def list.set insert_iff empty_iff
  by (elim disjE; simp add: spaceWidth_def asciiSpace_def unicodeSpaces2_def)

lemma spaceWidth_three:
  "r \<in> set unicodeSpaces3 \<Longrightarrow> spaceWidth (r @ s) = 3 \<and> length r = 3"
  unfolding unicodeSpaces3_def list.set insert_iff empty_iff
  by (elim disjE; simp add: spaceWidth_def asciiSpace_def unicodeSpaces2_def unicodeSpaces3_def)

lemma spaceRune_scan:
  assumes "isSpaceRune r"
  shows "fieldsScan 0 [] (r @ s) = fieldsScan 0 [] s"
proof -
  from assms consider (one) c where "r = [c]" "asciiSpace c"
    | (two) "r \<in> set unicodeSpaces2" | (three) "r \<in> set unicodeSpaces3"
    by (auto simp: isSpaceRune_def split: list.splits)
  then show ?thesis
  proof cases
    case one
    then show ?thesis by (simp add: spaceWidth_def)
  next
    case two
    from spaceWidth_two[OF two, of s] have w: "spaceWidth (r @ s) = 2" and l: "length r = 2"
      by simp_all
    from l obtain a b where r: "r = [a, b]"
      by (auto simp: numeral_2_eq_2 length_Suc_conv)
    show ?thesis using w fieldsScan_skip[of "[b]" 1 "[]" s] unfolding r by simp
  next
    case three
    from spaceWidth_three[OF three, of s] have w: "spaceWidth (r @ s) = 3" and l: "length r = 3"
      by simp_all
    from l obtain a b d where r: "r = [a, b, d]"
      by (auto simp: numeral_3_eq_3 length_Suc_conv)
    show ?thesis using w fieldsScan_skip[of "[b, d]" 2 "[]" s] unfolding r by simp
  qed
qed

lemma Fields_spaces: "list_all isSpaceRune rs \<Longrightarrow> Fields (concat rs) = []"
  by (induction rs) (simp_all add: Fields_def spaceRune_scan)

lemma validateHash_error_kind: "validateHash h name v = Some e \<Longrightarrow> e \<noteq> InvalidString s"
  by (auto simp: validateHash_eq split: option.splits if_splits)

lemma step_error_kind: "fieldsLoop c hp ws t [field] = Inl e \<Longrightarrow> e \<noteq> InvalidString s"
  by (auto simp: fieldsLoop_Cons addHash_def Let_def dest: validateHash_error_kind
        split: if_splits sum.splits option.splits)

lemma loop_error_kind: "fieldsLoop c hp ws t fs = Inl e \<Longrightarrow> e \<noteq> InvalidString s"
proof (induction fs arbitrary: c hp ws)
  case Nil
  then show ?case by simp
next
  case (Cons field rest)
  show ?case
  proof (cases "fieldsLoop c hp ws t [field]")
    case (Inl e')
    with Cons.prems have "e' = e" by (subst (asm) fieldsLoop_snoc_step) simp
    with step_error_kind[OF Inl] show ?thesis by simp
  next
    case (Inr x)
    then obtain c1 hp1 ws1 where "fieldsLoop c hp ws t [field] = Inr (c1, hp1, ws1)"
      by (cases x) auto
    with Cons.prems have "fieldsLoop c1 hp1 ws1 t rest = Inl e"
      by (subst (asm) fieldsLoop_snoc_step) simp
    then show ?thesis by (rule Cons.IH)
  qed
qed

lemma New_empty_iff:
  "NewCheckerForHashes sri t = Inl (InvalidString sri) \<longleftrightarrow> Fields sri = []"
proof
  assume r: "NewCheckerForHashes sri t = Inl (InvalidString sri)"
  show "Fields sri = []"
  proof (rule ccontr)
    assume ne: "Fields sri \<noteq> []"
    show False
    proof (cases "fieldsLoop emptyChecker [] [] t (Fields sri)")
      case (Inl e)
      with r have "e = InvalidString sri" by (simp add: NewCheckerForHashes_def)
      with loop_error_kind[OF Inl] show False by blast
    next
      case (Inr x)
      then obtain c hp ws where l: "fieldsLoop emptyChecker [] [] t (Fields sri) = Inr (c, hp, ws)"
        by (cases x) auto
      from parsed_writers_nonempty[OF parsed_from_empty[OF l] ne] l r show False
        by (simp add: NewCheckerForHashes_def split: if_splits)
    qed
  qed
next
  assume "Fields sri = []"
  then show "NewCheckerForHashes sri t = Inl (InvalidString sri)"
    by (simp add: NewCheckerForHashes_def emptyChecker_def)
qed

lemma New_coIndexed:
  assumes "NewCheckerForHashes sri t = Inr (c, hp)"
  shows "coIndexed c hp"
proof -
  from assms obtain c0 ws where p: "parsed t (Fields sri) c0 hp ws" and ne: "ws \<noteq> []"
    and c: "c = c0\<lparr>c_w := (if length ws = 1 then HashWriter (ws ! 0) else MultiWriter ws)\<rparr>"
    by (rule New_parsed)
  note I = parsedD[OF p]
  have "dom (c_expected c0) = fieldName ` set (Fields sri)"
    using I(2) by (auto simp: dom_def)
  with I(3) have 1: "dom (c_expected c) = dom (c_hashes c)" using c by simp
  have "writerAddrs (if length ws = 1 then HashWriter (ws ! 0) else MultiWriter ws) = ws"
    by (cases ws) auto
  with I(1) c have 4: "writerAddrs (c_w c) = [0..<length hp]" by simp
  from 1 4 I(4,5) c show ?thesis by (simp add: coIndexed_def)
qed

lemma coIndexed_card:
  assumes "coIndexed c hp"
  shows "card (dom (c_hashes c)) = length hp"
proof -
  from assms have inj: "inj_on (c_hashes c) (dom (c_hashes c))"
    and ran: "ran (c_hashes c) = {0..<length hp}" by (simp_all add: coIndexed_def)
  have "Some ` ran (c_hashes c) = c_hashes c ` dom (c_hashes c)"
  proof (intro set_eqI iffI)
    fix x assume "x \<in> Some ` ran (c_hashes c)"
    then obtain y a where "x = Some y" "c_hashes c a = Some y" by (auto simp: ran_def)
    then show "x \<in> c_hashes c ` dom (c_hashes c)" by (metis domI image_eqI)
  next
    fix x assume "x \<in> c_hashes c ` dom (c_hashes c)"
    then obtain a y where "x = c_hashes c a" "c_hashes c a = Some y" by auto
    then show "x \<in> Some ` ran (c_hashes c)" by (metis ranI image_eqI)
  qed
  then have "card (Some ` ran (c_hashes c)) = card (dom (c_hashes c))"
    using inj by (simp add: card_image)
  moreover have "card (Some ` ran (c_hashes c)) = card (ran (c_hashes c))"
    by (simp add: card_image)
  ultimately show ?thesis using ran by simp
qed

subsection \<open>Writing and checking\<close>

lemma Hash_Write_eq: "Hash_Write h p = (appendWritten p h, length p, None)"
  by (simp add: Hash_Write_def appendWritten_def)

lemma multiWrite_effect:
  assumes "distinct ws" "set ws \<subseteq> {..<length hp}"
  shows "\<exists>hp'. multiWrite hp ws p = (hp', length p, None) \<and> length hp' = length hp \<and>
           (\<forall>i<length hp. hp' ! i = (if i \<in> set ws then appendWritten p (hp ! i) else hp ! i))"
  using assms
proof (induction ws arbitrary: hp)
  case Nil
  show ?case by simp
next
  case (Cons a ws)
  let ?hp1 = "hp[a := appendWritten p (hp ! a)]"
  from Cons.prems have d: "distinct ws" and s: "set ws \<subseteq> {..<length ?hp1}"
    and a: "a < length hp" and na: "a \<notin> set ws" by auto
  from Cons.IH[OF d s] obtain hp' where
    m: "multiWrite ?hp1 ws p = (hp', length p, None)" and l: "length hp' = length ?hp1"
    and n: "\<forall>i<length ?hp1. hp' ! i = (if i \<in> set ws then appendWritten p (?hp1 ! i) else ?hp1 ! i)"
    by blast
  have step: "multiWrite hp (a # ws) p = multiWrite ?hp1 ws p"
    by (simp add: Hash_Write_eq)
  have "\<forall>i<length hp. hp' ! i = (if i \<in> set (a # ws) then appendWritten p (hp ! i) else hp ! i)"
  proof (intro allI impI)
    fix i assume i: "i < length hp"
    show "hp' ! i = (if i \<in> set (a # ws) then appendWritten p (hp ! i) else hp ! i)"
    proof (cases "i = a")
      case True
      with n i na a show ?thesis by simp
    next
      case False
      with n i show ?thesis by simp
    qed
  qed
  with step m l show ?case by simp
qed

lemma multiWrite_result: "\<exists>hp'. multiWrite hp ws p = (hp', length p, None)"
  by (induction ws arbitrary: hp) (simp_all add: Hash_Write_eq)

lemma Write_effect:
  assumes "writerAddrs (c_w c) = [0..<length hp]" "hp \<noteq> []"
  shows "Write c hp b = Some (map (appendWritten b) hp, length b, None)"
proof (cases "c_w c")
  case NilWriter
  with assms show ?thesis by (cases hp) simp_all
next
  case (HashWriter a)
  with assms(1) have "[a] = [0..<length hp]" by simp
  then have l: "length hp = 1" and a0: "a = 0"
    by (metis length_upt diff_zero length_Cons list.size(3) One_nat_def,
        metis upt_eq_Cons_conv)
  from l obtain h where hp: "hp = [h]" by (cases hp) auto
  show ?thesis using HashWriter by (simp add: Write_def Hash_Write_eq hp a0)
next
  case (MultiWriter ws)
  with assms(1) have ws: "ws = [0..<length hp]" by simp
  have "distinct ws" "set ws \<subseteq> {..<length hp}" using ws by auto
  from multiWrite_effect[OF this, of b] obtain hp' where
    m: "multiWrite hp ws b = (hp', length b, None)" and l: "length hp' = length hp"
    and n': "\<forall>i<length hp. hp' ! i = (if i \<in> set ws then appendWritten b (hp ! i) else hp ! i)"
    by blast
  from n' ws have n: "\<forall>i<length hp. hp' ! i = appendWritten b (hp ! i)" by simp
  have "hp' = map (appendWritten b) hp"
    by (rule nth_equalityI) (simp_all add: l n)
  with m MultiWriter show ?thesis by (simp add: Write_def)
qed

lemma writeAll_effect:
  assumes "writerAddrs (c_w c) = [0..<length hp]" "hp \<noteq> []"
  shows "writeAll c hp bss = Some (map (appendWritten (concat bss)) hp)"
  using assms
proof (induction bss arbitrary: hp)
  case Nil
  show ?case by (simp add: appendWritten_def)
next
  case (Cons b bss)
  let ?hp1 = "map (appendWritten b) hp"
  from Cons.prems have 1: "writerAddrs (c_w c) = [0..<length ?hp1]" and 2: "?hp1 \<noteq> []"
    by simp_all
  from Cons.IH[OF 1 2] Write_effect[OF Cons.prems, of b] show ?case
    by (simp add: appendWritten_def comp_def)
qed

lemma contains_iff: "contains haystack needle \<longleftrightarrow> needle \<in> set haystack"
  by (induction haystack) auto

lemma checkEntry_empty_iff:
  "checkEntry c hp name a = [] \<longleftrightarrow>
     EncodeToString (Hash_Sum (hp ! a) []) \<in> set (mapIndex (c_expected c) name)"
  by (simp add: checkEntry_def Let_def contains_iff)

lemma Check_None_iff:
  "Check c hp order = None \<longleftrightarrow>
     (\<forall>name \<in> set order. \<forall>a. c_hashes c name = Some a \<longrightarrow> checkEntry c hp name a = [])"
  by (auto simp: Check_def Let_def split: option.splits)

subsection \<open>A concrete run\<close>

lemmas decode_eval =
  DecodeString_def decodeMap_def encodeStd_def isNewline_def padChar_def quantumBytes_def

lemmas fields_eval =
  Fields_def spaceWidth_def asciiSpace_def unicodeSpaces2_def unicodeSpaces3_def

lemmas field_eval = fieldOk_def fieldName_def fieldValue_def

lemma example_fields:
  "Fields ''sum-Bg== len-AAM= sum-AA=='' = [''sum-Bg=='', ''len-AAM='', ''sum-AA=='']"
  by (simp add: fields_eval)

lemma example_new:
  "\<exists>c hp. NewCheckerForHashes ''sum-Bg== len-AAM= sum-AA=='' exampleHashes = Inr (c, hp)"
  by (rule New_succeeds) (simp_all add: example_fields field_eval exampleHashes_def decode_eval)

lemma example_values:
  "valuesFor ''sum'' (Fields ''sum-Bg== len-AAM= sum-AA=='') = [''Bg=='', ''AA=='']"
  "valuesFor ''len'' (Fields ''sum-Bg== len-AAM= sum-AA=='') = [''AAM='']"
  "valuesFor ''md5'' (Fields ''sum-Bg== len-AAM= sum-AA=='') = []"
  by (simp_all add: example_fields valuesFor_def field_eval)

lemma example_names:
  "fieldName ` set (Fields ''sum-Bg== len-AAM= sum-AA=='') = {''sum'', ''len''}"
  by (auto simp add: example_fields field_eval)


text \<open>The values of the tests, decoded and in hex.\<close>

lemma test_fields:
  "Fields testDescriptor =
     [''sha256-y1v31NktLrKLVp1gbS7zjWtYgDICENEw7hKLJHcw4E0='',
      ''sha384-4QuseiT9WQ+80EDZ/MYTodasdNBTLIC/9G1XmSQDmTjTvDM8q00Vgxa9nMgwUw3j'',
      ''sha512-xLpYEEen45RJnXxmFACS66+sO/1Xuo192Xq6uIarYI4uE7MZevI2pTyoKUZAFVP9tvfhJTS6YjOJcMc8ckoRkw=='',
      ''sha256-49hwASqGvw3v5oq2Pu4U2jR2Pv9KCMm2VGFAqCwEXhI='',
      ''sha384-ixBUOCmT6wnGpEL5AxEsAm9EdJCBj7kF099SUkvIbtB63ydFdgNgXVj784BCcJ2k'',
      ''sha512-jt9sSgTPOFnKQWLknlJEWjBq6UaOcjZzJOwlSgaEWr1b8IfmBmOMJZ91TmrZzjbUUB211oxxKEjyOBQHeXiDoA=='']"
  by (simp add: testDescriptor_def fields_eval)

lemma test_decode_a:
  "DecodeString ''y1v31NktLrKLVp1gbS7zjWtYgDICENEw7hKLJHcw4E0='' =
     ([203, 91, 247, 212, 217, 45, 46, 178, 139, 86, 157, 96, 109, 46, 243, 141, 107, 88, 128, 50, 2, 16, 209, 48, 238, 18, 139, 36, 119, 48, 224, 77], None)"
  by (simp add: decode_eval)

lemma test_decode_b:
  "DecodeString ''4QuseiT9WQ+80EDZ/MYTodasdNBTLIC/9G1XmSQDmTjTvDM8q00Vgxa9nMgwUw3j'' =
     ([225, 11, 172, 122, 36, 253, 89, 15, 188, 208, 64, 217, 252, 198, 19, 161, 214, 172, 116, 208, 83, 44, 128, 191, 244, 109, 87, 153, 36, 3, 153, 56, 211, 188, 51, 60, 171, 77, 21, 131, 22, 189, 156, 200, 48, 83, 13, 227], None)"
  by (simp add: decode_eval)

lemma test_decode_c:
  "DecodeString ''xLpYEEen45RJnXxmFACS66+sO/1Xuo192Xq6uIarYI4uE7MZevI2pTyoKUZAFVP9tvfhJTS6YjOJcMc8ckoRkw=='' =
     ([196, 186, 88, 16, 71, 167, 227, 148, 73, 157, 124, 102, 20, 0, 146, 235, 175, 172, 59, 253, 87, 186, 141, 125, 217, 122, 186, 184, 134, 171, 96, 142, 46, 19, 179, 25, 122, 242, 54, 165, 60, 168, 41, 70, 64, 21, 83, 253, 182, 247, 225, 37, 52, 186, 98, 51, 137, 112, 199, 60, 114, 74, 17, 147], None)"
  by (simp add: decode_eval)

lemma test_decode_d:
  "DecodeString ''49hwASqGvw3v5oq2Pu4U2jR2Pv9KCMm2VGFAqCwEXhI='' =
     ([227, 216, 112, 1, 42, 134, 191, 13, 239, 230, 138, 182, 62, 238, 20, 218, 52, 118, 62, 255, 74, 8, 201, 182, 84, 97, 64, 168, 44, 4, 94, 18], None)"
  by (simp add: decode_eval)

lemma test_decode_e:
  "DecodeString ''ixBUOCmT6wnGpEL5AxEsAm9EdJCBj7kF099SUkvIbtB63ydFdgNgXVj784BCcJ2k'' =
     ([139, 16, 84, 56, 41, 147, 235, 9, 198, 164, 66, 249, 3, 17, 44, 2, 111, 68, 116, 144, 129, 143, 185, 5, 211, 223, 82, 82, 75, 200, 110, 208, 122, 223, 39, 69, 118, 3, 96, 93, 88, 251, 243, 128, 66, 112, 157, 164], None)"
  by (simp add: decode_eval)

lemma test_decode_f:
  "DecodeString ''jt9sSgTPOFnKQWLknlJEWjBq6UaOcjZzJOwlSgaEWr1b8IfmBmOMJZ91TmrZzjbUUB211oxxKEjyOBQHeXiDoA=='' =
     ([142, 223, 108, 74, 4, 207, 56, 89, 202, 65, 98, 228, 158, 82, 68, 90, 48, 106, 233, 70, 142, 114, 54, 115, 36, 236, 37, 74, 6, 132, 90, 189, 91, 240, 135, 230, 6, 99, 140, 37, 159, 117, 78, 106, 217, 206, 54, 212, 80, 29, 181, 214, 140, 113, 40, 72, 242, 56, 20, 7, 121, 120, 131, 160], None)"
  by (simp add: decode_eval)

lemma test_hex_a:
  "hexEncodeToString (fst (DecodeString ''y1v31NktLrKLVp1gbS7zjWtYgDICENEw7hKLJHcw4E0='')) =
     ''cb5bf7d4d92d2eb28b569d606d2ef38d6b5880320210d130ee128b247730e04d''"
  by (simp add: test_decode_a hexEncodeToString_def hextable_def)

lemma test_hex_b:
  "hexEncodeToString (fst (DecodeString ''4QuseiT9WQ+80EDZ/MYTodasdNBTLIC/9G1XmSQDmTjTvDM8q00Vgxa9nMgwUw3j'')) =
     ''e10bac7a24fd590fbcd040d9fcc613a1d6ac74d0532c80bff46d579924039938d3bc333cab4d158316bd9cc830530de3''"
  by (simp add: test_decode_b hexEncodeToString_def hextable_def)

lemma test_hex_c:
  "hexEncodeToString (fst (DecodeString ''xLpYEEen45RJnXxmFACS66+sO/1Xuo192Xq6uIarYI4uE7MZevI2pTyoKUZAFVP9tvfhJTS6YjOJcMc8ckoRkw=='')) =
     ''c4ba581047a7e394499d7c66140092ebafac3bfd57ba8d7dd97abab886ab608e2e13b3197af236a53ca82946401553fdb6f7e12534ba62338970c73c724a1193''"
  by (simp add: test_decode_c hexEncodeToString_def hextable_def)

lemma test_hex_d:
  "hexEncodeToString (fst (DecodeString ''49hwASqGvw3v5oq2Pu4U2jR2Pv9KCMm2VGFAqCwEXhI='')) =
     ''e3d870012a86bf0defe68ab63eee14da34763eff4a08c9b6546140a82c045e12''"
  by (simp add: test_decode_d hexEncodeToString_def hextable_def)

lemma test_hex_e:
  "hexEncodeToString (fst (DecodeString ''ixBUOCmT6wnGpEL5AxEsAm9EdJCBj7kF099SUkvIbtB63ydFdgNgXVj784BCcJ2k'')) =
     ''8b1054382993eb09c6a442f903112c026f447490818fb905d3df52524bc86ed07adf27457603605d58fbf38042709da4''"
  by (simp add: test_decode_e hexEncodeToString_def hextable_def)

lemma test_hex_f:
  "hexEncodeToString (fst (DecodeString ''jt9sSgTPOFnKQWLknlJEWjBq6UaOcjZzJOwlSgaEWr1b8IfmBmOMJZ91TmrZzjbUUB211oxxKEjyOBQHeXiDoA=='')) =
     ''8edf6c4a04cf3859ca4162e49e52445a306ae9468e72367324ec254a06845abd5bf087e606638c259f754e6ad9ce36d4501db5d68c712848f2381407797883a0''"
  by (simp add: test_decode_f hexEncodeToString_def hextable_def)

lemma test_ok:
  "list_all (fieldOk (presetHashes sha256 sha384 sha512)) (Fields testDescriptor)"
  by (simp add: test_fields field_eval presetHashes_def
        test_decode_a test_decode_b test_decode_c test_decode_d test_decode_e test_decode_f)

lemma test_values:
  "valuesFor ''sha256'' (Fields testDescriptor) = [''y1v31NktLrKLVp1gbS7zjWtYgDICENEw7hKLJHcw4E0='', ''49hwASqGvw3v5oq2Pu4U2jR2Pv9KCMm2VGFAqCwEXhI='']"
  "valuesFor ''sha512'' (Fields testDescriptor) = [''xLpYEEen45RJnXxmFACS66+sO/1Xuo192Xq6uIarYI4uE7MZevI2pTyoKUZAFVP9tvfhJTS6YjOJcMc8ckoRkw=='', ''jt9sSgTPOFnKQWLknlJEWjBq6UaOcjZzJOwlSgaEWr1b8IfmBmOMJZ91TmrZzjbUUB211oxxKEjyOBQHeXiDoA=='']"
  "valuesFor ''md5'' (Fields testDescriptor) = []"
  by (simp_all add: test_fields valuesFor_def field_eval)

lemma test_new:
  "\<exists>c hp. NewChecker sha256 sha384 sha512 testDescriptor = Inr (c, hp)"
  unfolding NewChecker_def by (rule New_succeeds) (simp_all add: test_ok, simp add: test_fields)



section \<open>The claims\<close>

text \<open>
  Claim C1. For a checker built from a descriptor, after any sequence of writes, \<open>Check\<close>
  succeeds exactly when, for every name registered in \<open>c.hashes\<close>, the base64 encoding of the
  digest (by the table's algorithm for that name) of the concatenation of the written slices is
  one of the expected values of that name: any one value of a name suffices, and every name
  must have one. This holds for every order in which \<open>Check\<close> ranges over the map.
\<close>

theorem check_succeeds_iff:
  assumes new: "NewCheckerForHashes sri t = Inr (c, hp0)"
    and order: "rangeOrder c order"
  shows "\<exists>hp. writeAll c hp0 bss = Some hp \<and>
           (Check c hp order = None \<longleftrightarrow>
              (\<forall>name \<in> dom (c_hashes c). \<exists>f. t name = Some f \<and>
                 EncodeToString (hf_digest f (concat bss)) \<in> set (Expected c name)))"
proof -
  from new obtain c0 ws where p: "parsed t (Fields sri) c0 hp0 ws" and ne: "ws \<noteq> []"
    and c: "c = c0\<lparr>c_w := (if length ws = 1 then HashWriter (ws ! 0) else MultiWriter ws)\<rparr>"
    by (rule New_parsed)
  note I = parsedD[OF p]
  from I(1) ne have hp0: "hp0 \<noteq> []" by auto
  from New_coIndexed[OF new] have w: "writerAddrs (c_w c) = [0..<length hp0]"
    by (simp add: coIndexed_def)
  let ?hp = "map (appendWritten (concat bss)) hp0"
  have wa: "writeAll c hp0 bss = Some ?hp" by (rule writeAll_effect[OF w hp0])
  have sum: "t name = Some (h_func (hp0 ! a)) \<and>
             Hash_Sum (?hp ! a) [] = hf_digest (h_func (hp0 ! a)) (concat bss)"
    if h: "c_hashes c name = Some a" for name a
  proof -
    from h c have h0: "c_hashes c0 name = Some a" by simp
    then have "a \<in> ran (c_hashes c0)" by (auto simp: ran_def)
    with I(5) have lt: "a < length hp0" by simp
    then have "h_written (hp0 ! a) = []" using I(7) by simp
    with lt I(6)[OF h0] show ?thesis
      by (simp add: Hash_Sum_def appendWritten_def)
  qed
  have iff: "Check c ?hp order = None \<longleftrightarrow>
          (\<forall>name \<in> dom (c_hashes c). \<exists>f. t name = Some f \<and>
             EncodeToString (hf_digest f (concat bss)) \<in> set (Expected c name))"
    (is "?L \<longleftrightarrow> ?R")
  proof
    assume L: ?L
    show ?R
    proof
      fix name assume "name \<in> dom (c_hashes c)"
      then obtain a where a: "c_hashes c name = Some a" by blast
      with order have "name \<in> set order" by (auto simp: rangeOrder_def)
      with L a have "checkEntry c ?hp name a = []" by (simp add: Check_None_iff)
      with sum[OF a] show "\<exists>f. t name = Some f \<and>
             EncodeToString (hf_digest f (concat bss)) \<in> set (Expected c name)"
        by (simp add: checkEntry_empty_iff Expected_def)
    qed
  next
    assume R: ?R
    show ?L
      unfolding Check_None_iff
    proof (intro ballI allI impI)
      fix name a assume a: "c_hashes c name = Some a"
      then have "name \<in> dom (c_hashes c)" by blast
      with R obtain f where "t name = Some f"
        "EncodeToString (hf_digest f (concat bss)) \<in> set (Expected c name)" by blast
      with sum[OF a] show "checkEntry c ?hp name a = []"
        by (simp add: checkEntry_empty_iff Expected_def)
    qed
  qed
  show ?thesis by (rule exI[of _ ?hp]) (rule conjI[OF wa iff])
qed

theorem check_succeeds_iff_witness:
  "\<exists>c hp0 hp1 hp2. NewCheckerForHashes ''sum-Bg== len-AAM= sum-AA=='' exampleHashes = Inr (c, hp0) \<and>
     rangeOrder c [''len'', ''sum''] \<and>
     writeAll c hp0 [[1, 2], [3]] = Some hp1 \<and> Check c hp1 [''len'', ''sum''] = None \<and>
     writeAll c hp0 [[1, 2, 4]] = Some hp2 \<and> Check c hp2 [''len'', ''sum''] \<noteq> None"
proof -
  from example_new obtain c hp0 where
    new: "NewCheckerForHashes ''sum-Bg== len-AAM= sum-AA=='' exampleHashes = Inr (c, hp0)"
    by blast
  have d: "dom (c_hashes c) = {''sum'', ''len''}"
    by (simp add: hashes_names[OF new] example_names)
  then have order: "rangeOrder c [''len'', ''sum'']"
    by (auto simp: rangeOrder_def)
  have e: "Expected c ''sum'' = [''Bg=='', ''AA=='']" "Expected c ''len'' = [''AAM='']"
    by (simp_all add: Expected_valuesFor[OF new] example_values)
  from check_succeeds_iff[OF new order, of "[[1, 2], [3]]"] obtain hp1 where
    1: "writeAll c hp0 [[1, 2], [3]] = Some hp1" "Check c hp1 [''len'', ''sum''] = None"
    unfolding d by (auto simp: e exampleHashes_def sumDigest_def lenDigest_def encodeStd_def padChar_def)
  from check_succeeds_iff[OF new order, of "[[1, 2, 4]]"] obtain hp2 where
    2: "writeAll c hp0 [[1, 2, 4]] = Some hp2" "Check c hp2 [''len'', ''sum''] \<noteq> None"
    unfolding d by (auto simp: e exampleHashes_def sumDigest_def lenDigest_def encodeStd_def padChar_def)
  from new order 1 2 show ?thesis by blast
qed

text \<open>
  In the statements below a descriptor is cut at one of its fields,
  \<open>Fields sri = pre @ field # post\<close>, and the fields before it have passed:
  \<open>fieldsLoop emptyChecker [] [] t pre = Inr (c, hp, ws)\<close> is the state in which the loop of
  \<open>NewCheckerForHashes\<close> reaches \<open>field\<close>.
\<close>

text \<open>
  Claim C2. Each field is checked in a fixed order: the separator first (no \<open>-\<close>: the
  malformed-field error), then the name (absent from the table: the unknown-hash error), then
  the base64 decoding of the value (the invalid-base64 error), then the decoded length against
  the size of the hash (the invalid-length error). A field with several defects fails with the
  error of the first of these checks that it fails, and a field that passes all four does not
  fail.
\<close>

theorem checks_in_fixed_order:
  assumes fs: "Fields sri = pre @ field # post"
    and pre: "fieldsLoop emptyChecker [] [] t pre = Inr (c, hp, ws)"
  shows "(CHR ''-'' \<notin> set field \<longrightarrow>
            NewCheckerForHashes sri t = Inl (InvalidSubstring field)) \<and>
         (CHR ''-'' \<in> set field \<and> t (fieldName field) = None \<longrightarrow>
            NewCheckerForHashes sri t = Inl (UnknownHashType (fieldName field))) \<and>
         (\<forall>f e. CHR ''-'' \<in> set field \<and> t (fieldName field) = Some f \<and>
                snd (DecodeString (fieldValue field)) = Some e \<longrightarrow>
            NewCheckerForHashes sri t = Inl (InvalidBase64 e)) \<and>
         (\<forall>f. CHR ''-'' \<in> set field \<and> t (fieldName field) = Some f \<and>
              snd (DecodeString (fieldValue field)) = None \<and>
              length (fst (DecodeString (fieldValue field))) \<noteq> hf_Size f \<longrightarrow>
            NewCheckerForHashes sri t =
              Inl (InvalidValue (fieldValue field) (fieldName field) (hf_Size f)
                     (length (fst (DecodeString (fieldValue field)))))) \<and>
         (\<forall>f. CHR ''-'' \<in> set field \<and> t (fieldName field) = Some f \<and>
              snd (DecodeString (fieldValue field)) = None \<and>
              length (fst (DecodeString (fieldValue field))) = hf_Size f \<longrightarrow>
            (\<exists>c' hp' ws'. fieldsLoop emptyChecker [] [] t (pre @ [field]) = Inr (c', hp', ws')))"
proof -
  note inv = parsed_from_empty[OF pre]
  note err = New_prefix_error[OF fs pre]
  have 1: "CHR ''-'' \<notin> set field \<longrightarrow> NewCheckerForHashes sri t = Inl (InvalidSubstring field)"
    using err[of "InvalidSubstring field"] by (simp add: step_no_dash)
  have 2: "CHR ''-'' \<in> set field \<and> t (fieldName field) = None \<longrightarrow>
            NewCheckerForHashes sri t = Inl (UnknownHashType (fieldName field))"
    using err[of "UnknownHashType (fieldName field)"] by (simp add: step_outcome[OF inv])
  have 3: "\<forall>f e. CHR ''-'' \<in> set field \<and> t (fieldName field) = Some f \<and>
                snd (DecodeString (fieldValue field)) = Some e \<longrightarrow>
            NewCheckerForHashes sri t = Inl (InvalidBase64 e)"
  proof (intro allI impI)
    fix f e assume "CHR ''-'' \<in> set field \<and> t (fieldName field) = Some f \<and>
                snd (DecodeString (fieldValue field)) = Some e"
    then have "fieldsLoop c hp ws t [field] = Inl (InvalidBase64 e)"
      by (simp add: step_outcome[OF inv])
    then show "NewCheckerForHashes sri t = Inl (InvalidBase64 e)" by (rule err)
  qed
  have 4: "\<forall>f. CHR ''-'' \<in> set field \<and> t (fieldName field) = Some f \<and>
              snd (DecodeString (fieldValue field)) = None \<and>
              length (fst (DecodeString (fieldValue field))) \<noteq> hf_Size f \<longrightarrow>
            NewCheckerForHashes sri t =
              Inl (InvalidValue (fieldValue field) (fieldName field) (hf_Size f)
                     (length (fst (DecodeString (fieldValue field)))))"
  proof (intro allI impI)
    fix f assume "CHR ''-'' \<in> set field \<and> t (fieldName field) = Some f \<and>
              snd (DecodeString (fieldValue field)) = None \<and>
              length (fst (DecodeString (fieldValue field))) \<noteq> hf_Size f"
    then have "fieldsLoop c hp ws t [field] =
       Inl (InvalidValue (fieldValue field) (fieldName field) (hf_Size f)
                     (length (fst (DecodeString (fieldValue field)))))"
      by (simp add: step_outcome[OF inv])
    then show "NewCheckerForHashes sri t =
              Inl (InvalidValue (fieldValue field) (fieldName field) (hf_Size f)
                     (length (fst (DecodeString (fieldValue field)))))" by (rule err)
  qed
  have 5: "\<forall>f. CHR ''-'' \<in> set field \<and> t (fieldName field) = Some f \<and>
              snd (DecodeString (fieldValue field)) = None \<and>
              length (fst (DecodeString (fieldValue field))) = hf_Size f \<longrightarrow>
            (\<exists>c' hp' ws'. fieldsLoop emptyChecker [] [] t (pre @ [field]) = Inr (c', hp', ws'))"
  proof (intro allI impI)
    fix f assume "CHR ''-'' \<in> set field \<and> t (fieldName field) = Some f \<and>
              snd (DecodeString (fieldValue field)) = None \<and>
              length (fst (DecodeString (fieldValue field))) = hf_Size f"
    then have "\<exists>c' hp' ws'. fieldsLoop c hp ws t [field] = Inr (c', hp', ws')"
      by (simp add: step_outcome[OF inv] split: option.splits)
    then show "\<exists>c' hp' ws'. fieldsLoop emptyChecker [] [] t (pre @ [field]) = Inr (c', hp', ws')"
      using pre by (simp add: fieldsLoop_append)
  qed
  from 1 2 3 4 5 show ?thesis by blast
qed


theorem checks_in_fixed_order_witness:
  "NewCheckerForHashes ''sum-Bg== md5* len-AAM='' exampleHashes = Inl (InvalidSubstring ''md5*'')
   \<and> NewCheckerForHashes ''sum-Bg== md5-* len-AAM='' exampleHashes = Inl (UnknownHashType ''md5'')
   \<and> NewCheckerForHashes ''sum-Bg== len-*AAAAAAA'' exampleHashes = Inl (InvalidBase64 0)
   \<and> NewCheckerForHashes ''sum-Bg== len-AAAA'' exampleHashes
         = Inl (InvalidValue ''AAAA'' ''len'' 2 3)
   \<and> (\<exists>c hp ws. fieldsLoop emptyChecker [] [] exampleHashes ([''sum-Bg==''] @ [''len-AAM=''])
         = Inr (c, hp, ws))
   \<and> (\<forall>sha256 sha384 sha512.
        NewChecker sha256 sha384 sha512 ''wibble wibble wibble''
          = Inl (InvalidSubstring ''wibble'')
        \<and> NewChecker sha256 sha384 sha512 ''sha1-plyJ8jPttaMEVHl2WQbzDVT4pfU=''
          = Inl (UnknownHashType ''sha1'')
        \<and> NewChecker sha256 sha384 sha512 ''sha256-wibblewibblewibble''
          = Inl (InvalidBase64 16)
        \<and> NewChecker sha256 sha384 sha512
            ''sha256-ixBUOCmT6wnGpEL5AxEsAm9EdJCBj7kF099SUkvIbtB63ydFdgNgXVj784BCcJ2k''
          = Inl (InvalidValue ''ixBUOCmT6wnGpEL5AxEsAm9EdJCBj7kF099SUkvIbtB63ydFdgNgXVj784BCcJ2k''
                   ''sha256'' 32 48))"
proof -
  have ok: "list_all (fieldOk exampleHashes) [''sum-Bg=='']"
    by (simp add: field_eval exampleHashes_def decode_eval)
  then obtain c hp ws where
    pre: "fieldsLoop emptyChecker [] [] exampleHashes [''sum-Bg==''] = Inr (c, hp, ws)"
    using loop_ok_empty by blast
  have fs1: "Fields ''sum-Bg== md5* len-AAM='' = [''sum-Bg==''] @ ''md5*'' # [''len-AAM='']"
    by (simp add: fields_eval)
  have h1: "CHR ''-'' \<notin> set ''md5*''" by simp
  have fs2: "Fields ''sum-Bg== md5-* len-AAM='' = [''sum-Bg==''] @ ''md5-*'' # [''len-AAM='']"
    by (simp add: fields_eval)
  have h2: "CHR ''-'' \<in> set ''md5-*''" "exampleHashes (fieldName ''md5-*'') = None"
    "fieldName ''md5-*'' = ''md5''"
    by (simp_all add: field_eval exampleHashes_def)
  have fs3: "Fields ''sum-Bg== len-*AAAAAAA'' = [''sum-Bg==''] @ ''len-*AAAAAAA'' # []"
    by (simp add: fields_eval)
  have h3: "CHR ''-'' \<in> set ''len-*AAAAAAA''"
    "exampleHashes (fieldName ''len-*AAAAAAA'') = Some \<lparr>hf_Size = 2, hf_digest = lenDigest\<rparr>"
    "snd (DecodeString (fieldValue ''len-*AAAAAAA'')) = Some 0"
    by (simp_all add: field_eval exampleHashes_def decode_eval)
  have fs4: "Fields ''sum-Bg== len-AAAA'' = [''sum-Bg==''] @ ''len-AAAA'' # []"
    by (simp add: fields_eval)
  have h4: "CHR ''-'' \<in> set ''len-AAAA''"
    "exampleHashes (fieldName ''len-AAAA'') = Some \<lparr>hf_Size = 2, hf_digest = lenDigest\<rparr>"
    "snd (DecodeString (fieldValue ''len-AAAA'')) = None"
    "length (fst (DecodeString (fieldValue ''len-AAAA''))) = 3"
    "fieldName ''len-AAAA'' = ''len''" "fieldValue ''len-AAAA'' = ''AAAA''"
    by (simp_all add: field_eval exampleHashes_def decode_eval)
  have fs5: "Fields ''sum-Bg== len-AAM='' = [''sum-Bg==''] @ ''len-AAM='' # []"
    by (simp add: fields_eval)
  have h5: "CHR ''-'' \<in> set ''len-AAM=''"
    "exampleHashes (fieldName ''len-AAM='') = Some \<lparr>hf_Size = 2, hf_digest = lenDigest\<rparr>"
    "snd (DecodeString (fieldValue ''len-AAM='')) = None"
    "length (fst (DecodeString (fieldValue ''len-AAM=''))) = 2"
    by (simp_all add: field_eval exampleHashes_def decode_eval)
  have 1: "NewCheckerForHashes ''sum-Bg== md5* len-AAM='' exampleHashes
             = Inl (InvalidSubstring ''md5*'')"
    using checks_in_fixed_order[OF fs1 pre] h1 by blast
  have 2: "NewCheckerForHashes ''sum-Bg== md5-* len-AAM='' exampleHashes
             = Inl (UnknownHashType ''md5'')"
    using checks_in_fixed_order[OF fs2 pre] h2 by simp
  have 3: "NewCheckerForHashes ''sum-Bg== len-*AAAAAAA'' exampleHashes = Inl (InvalidBase64 0)"
    using checks_in_fixed_order[OF fs3 pre] h3 by blast
  have 4: "NewCheckerForHashes ''sum-Bg== len-AAAA'' exampleHashes
             = Inl (InvalidValue ''AAAA'' ''len'' 2 3)"
    using checks_in_fixed_order[OF fs4 pre] h4 by simp
  have 5: "\<exists>c hp ws. fieldsLoop emptyChecker [] [] exampleHashes ([''sum-Bg==''] @ [''len-AAM=''])
         = Inr (c, hp, ws)"
    using checks_in_fixed_order[OF fs5 pre] h5 by simp
  have 6: "NewChecker sha256 sha384 sha512 ''wibble wibble wibble''
          = Inl (InvalidSubstring ''wibble'')
        \<and> NewChecker sha256 sha384 sha512 ''sha1-plyJ8jPttaMEVHl2WQbzDVT4pfU=''
          = Inl (UnknownHashType ''sha1'')
        \<and> NewChecker sha256 sha384 sha512 ''sha256-wibblewibblewibble''
          = Inl (InvalidBase64 16)
        \<and> NewChecker sha256 sha384 sha512
            ''sha256-ixBUOCmT6wnGpEL5AxEsAm9EdJCBj7kF099SUkvIbtB63ydFdgNgXVj784BCcJ2k''
          = Inl (InvalidValue ''ixBUOCmT6wnGpEL5AxEsAm9EdJCBj7kF099SUkvIbtB63ydFdgNgXVj784BCcJ2k''
                   ''sha256'' 32 48)" for sha256 sha384 sha512
  proof -
    let ?t = "presetHashes sha256 sha384 sha512"
    have pre0: "fieldsLoop emptyChecker [] [] ?t [] = Inr (emptyChecker, [], [])" by simp
    have f1: "Fields ''wibble wibble wibble'' = [] @ ''wibble'' # [''wibble'', ''wibble'']"
      by (simp add: fields_eval)
    have g1: "CHR ''-'' \<notin> set ''wibble''" by simp
    have f2: "Fields ''sha1-plyJ8jPttaMEVHl2WQbzDVT4pfU=''
                = [] @ ''sha1-plyJ8jPttaMEVHl2WQbzDVT4pfU='' # []"
      by (simp add: fields_eval)
    have g2: "CHR ''-'' \<in> set ''sha1-plyJ8jPttaMEVHl2WQbzDVT4pfU=''"
      "?t (fieldName ''sha1-plyJ8jPttaMEVHl2WQbzDVT4pfU='') = None"
      "fieldName ''sha1-plyJ8jPttaMEVHl2WQbzDVT4pfU='' = ''sha1''"
      by (simp_all add: field_eval presetHashes_def)
    have f3: "Fields ''sha256-wibblewibblewibble'' = [] @ ''sha256-wibblewibblewibble'' # []"
      by (simp add: fields_eval)
    have g3: "CHR ''-'' \<in> set ''sha256-wibblewibblewibble''"
      "?t (fieldName ''sha256-wibblewibblewibble'') = Some \<lparr>hf_Size = 32, hf_digest = sha256\<rparr>"
      "snd (DecodeString (fieldValue ''sha256-wibblewibblewibble'')) = Some 16"
      by (simp_all add: field_eval presetHashes_def decode_eval)
    have f4: "Fields ''sha256-ixBUOCmT6wnGpEL5AxEsAm9EdJCBj7kF099SUkvIbtB63ydFdgNgXVj784BCcJ2k''
                = [] @ ''sha256-ixBUOCmT6wnGpEL5AxEsAm9EdJCBj7kF099SUkvIbtB63ydFdgNgXVj784BCcJ2k'' # []"
      by (simp add: fields_eval)
    have g4: "CHR ''-'' \<in> set ''sha256-ixBUOCmT6wnGpEL5AxEsAm9EdJCBj7kF099SUkvIbtB63ydFdgNgXVj784BCcJ2k''"
      "?t (fieldName ''sha256-ixBUOCmT6wnGpEL5AxEsAm9EdJCBj7kF099SUkvIbtB63ydFdgNgXVj784BCcJ2k'')
         = Some \<lparr>hf_Size = 32, hf_digest = sha256\<rparr>"
      "fieldName ''sha256-ixBUOCmT6wnGpEL5AxEsAm9EdJCBj7kF099SUkvIbtB63ydFdgNgXVj784BCcJ2k'' = ''sha256''"
      "fieldValue ''sha256-ixBUOCmT6wnGpEL5AxEsAm9EdJCBj7kF099SUkvIbtB63ydFdgNgXVj784BCcJ2k''
         = ''ixBUOCmT6wnGpEL5AxEsAm9EdJCBj7kF099SUkvIbtB63ydFdgNgXVj784BCcJ2k''"
      by (simp_all add: field_eval presetHashes_def)
    have d4: "snd (DecodeString ''ixBUOCmT6wnGpEL5AxEsAm9EdJCBj7kF099SUkvIbtB63ydFdgNgXVj784BCcJ2k'') = None"
      "length (fst (DecodeString ''ixBUOCmT6wnGpEL5AxEsAm9EdJCBj7kF099SUkvIbtB63ydFdgNgXVj784BCcJ2k'')) = 48"
      by (simp_all add: test_decode_e)
    have r1: "NewCheckerForHashes ''wibble wibble wibble'' ?t = Inl (InvalidSubstring ''wibble'')"
      using checks_in_fixed_order[OF f1 pre0] g1 by blast
    have r2: "NewCheckerForHashes ''sha1-plyJ8jPttaMEVHl2WQbzDVT4pfU='' ?t
                = Inl (UnknownHashType ''sha1'')"
      using checks_in_fixed_order[OF f2 pre0] g2 by simp
    have r3: "NewCheckerForHashes ''sha256-wibblewibblewibble'' ?t = Inl (InvalidBase64 16)"
      using checks_in_fixed_order[OF f3 pre0] g3 by blast
    have r4: "NewCheckerForHashes ''sha256-ixBUOCmT6wnGpEL5AxEsAm9EdJCBj7kF099SUkvIbtB63ydFdgNgXVj784BCcJ2k'' ?t
                = Inl (InvalidValue ''ixBUOCmT6wnGpEL5AxEsAm9EdJCBj7kF099SUkvIbtB63ydFdgNgXVj784BCcJ2k''
                         ''sha256'' 32 48)"
      using checks_in_fixed_order[OF f4 pre0] g4 d4 by simp
    from r1 r2 r3 r4 show ?thesis by (simp add: NewChecker_def)
  qed
  from 1 2 3 4 5 6 show ?thesis by blast
qed

text \<open>
  Claim C3. When the name of a field has occurred in an earlier field, no new hash instance is
  created, but the value is still decoded and its length checked against the size of the
  instance created at the first occurrence (the size the table gives for the name): a value
  that does not decode or has the wrong length makes \<open>NewCheckerForHashes\<close> return the error,
  and a valid one leaves the heap, the writers and the registered hashes as they were.
\<close>

theorem repeated_name_still_validated:
  assumes fs: "Fields sri = pre @ field # post"
    and pre: "fieldsLoop emptyChecker [] [] t pre = Inr (c, hp, ws)"
    and dash: "CHR ''-'' \<in> set field"
    and seen: "fieldName field \<in> fieldName ` set pre"
  shows "\<exists>a f. c_hashes c (fieldName field) = Some a \<and> a < length hp \<and>
           t (fieldName field) = Some f \<and> Hash_Size (hp ! a) = hf_Size f \<and>
           (case snd (DecodeString (fieldValue field)) of
              Some e \<Rightarrow> NewCheckerForHashes sri t = Inl (InvalidBase64 e)
            | None \<Rightarrow>
                if length (fst (DecodeString (fieldValue field))) \<noteq> hf_Size f
                then NewCheckerForHashes sri t =
                       Inl (InvalidValue (fieldValue field) (fieldName field) (hf_Size f)
                              (length (fst (DecodeString (fieldValue field)))))
                else (\<exists>c'. fieldsLoop c hp ws t [field] = Inr (c', hp, ws) \<and>
                           c_hashes c' = c_hashes c))"
proof -
  note inv = parsed_from_empty[OF pre]
  note I = parsedD[OF inv]
  note err = New_prefix_error[OF fs pre]
  from seen I(3) obtain a where a: "c_hashes c (fieldName field) = Some a" by auto
  then have "a \<in> ran (c_hashes c)" by (auto simp: ran_def)
  with I(5) have lt: "a < length hp" by simp
  from I(6)[OF a] have tf: "t (fieldName field) = Some (h_func (hp ! a))" .
  have "case snd (DecodeString (fieldValue field)) of
              Some e \<Rightarrow> NewCheckerForHashes sri t = Inl (InvalidBase64 e)
            | None \<Rightarrow>
                if length (fst (DecodeString (fieldValue field))) \<noteq> hf_Size (h_func (hp ! a))
                then NewCheckerForHashes sri t =
                       Inl (InvalidValue (fieldValue field) (fieldName field) (hf_Size (h_func (hp ! a)))
                              (length (fst (DecodeString (fieldValue field)))))
                else (\<exists>c'. fieldsLoop c hp ws t [field] = Inr (c', hp, ws) \<and>
                           c_hashes c' = c_hashes c)"
  proof (cases "snd (DecodeString (fieldValue field))")
    case (Some e)
    then have "fieldsLoop c hp ws t [field] = Inl (InvalidBase64 e)"
      using tf by (simp add: step_outcome[OF inv dash])
    from err[OF this] Some show ?thesis by simp
  next
    case None
    show ?thesis
    proof (cases "length (fst (DecodeString (fieldValue field))) = hf_Size (h_func (hp ! a))")
      case True
      with None tf a show ?thesis by (simp add: step_outcome[OF inv dash])
    next
      case False
      with None tf have "fieldsLoop c hp ws t [field] =
          Inl (InvalidValue (fieldValue field) (fieldName field) (hf_Size (h_func (hp ! a)))
                              (length (fst (DecodeString (fieldValue field)))))"
        by (simp add: step_outcome[OF inv dash])
      from err[OF this] None False show ?thesis by simp
    qed
  qed
  with a lt tf show ?thesis by (auto simp: Hash_Size_def)
qed



theorem repeated_name_still_validated_witness:
  "NewCheckerForHashes ''sum-Bg== len-AAM= sum-AAAA'' exampleHashes
     = Inl (InvalidValue ''AAAA'' ''sum'' 1 3)
   \<and> NewCheckerForHashes ''sum-Bg== sum-Bg= len-AAM='' exampleHashes = Inl (InvalidBase64 3)
   \<and> (\<exists>c hp ws c'.
        fieldsLoop emptyChecker [] [] exampleHashes [''sum-Bg==''] = Inr (c, hp, ws) \<and>
        fieldsLoop c hp ws exampleHashes [''sum-AA==''] = Inr (c', hp, ws))
   \<and> (\<forall>sha256 sha384 sha512.
        NewChecker sha256 sha384 sha512
          ''sha256-y1v31NktLrKLVp1gbS7zjWtYgDICENEw7hKLJHcw4E0= sha256-ixBUOCmT6wnGpEL5AxEsAm9EdJCBj7kF099SUkvIbtB63ydFdgNgXVj784BCcJ2k''
          = Inl (InvalidValue ''ixBUOCmT6wnGpEL5AxEsAm9EdJCBj7kF099SUkvIbtB63ydFdgNgXVj784BCcJ2k''
                   ''sha256'' 32 48))"
proof -
  have ok: "list_all (fieldOk exampleHashes) [''sum-Bg=='', ''len-AAM='']"
    by (simp add: field_eval exampleHashes_def decode_eval)
  then obtain c hp ws where
    pre: "fieldsLoop emptyChecker [] [] exampleHashes [''sum-Bg=='', ''len-AAM='']
            = Inr (c, hp, ws)"
    using loop_ok_empty by blast
  have fs: "Fields ''sum-Bg== len-AAM= sum-AAAA''
              = [''sum-Bg=='', ''len-AAM=''] @ ''sum-AAAA'' # []"
    by (simp add: fields_eval)
  have dash: "CHR ''-'' \<in> set ''sum-AAAA''" by simp
  have seen: "fieldName ''sum-AAAA'' \<in> fieldName ` set [''sum-Bg=='', ''len-AAM='']"
    by (simp add: field_eval)
  have h: "fieldName ''sum-AAAA'' = ''sum''" "fieldValue ''sum-AAAA'' = ''AAAA''"
    "snd (DecodeString ''AAAA'') = None" "length (fst (DecodeString ''AAAA'')) = 3"
    "exampleHashes ''sum'' = Some \<lparr>hf_Size = 1, hf_digest = sumDigest\<rparr>"
    by (simp_all add: field_eval exampleHashes_def decode_eval)
  have 1: "NewCheckerForHashes ''sum-Bg== len-AAM= sum-AAAA'' exampleHashes
     = Inl (InvalidValue ''AAAA'' ''sum'' 1 3)"
    using repeated_name_still_validated[OF fs pre dash seen] unfolding h by auto
  have ok': "list_all (fieldOk exampleHashes) [''sum-Bg=='']"
    by (simp add: field_eval exampleHashes_def decode_eval)
  then obtain c' hp' ws' where
    pre': "fieldsLoop emptyChecker [] [] exampleHashes [''sum-Bg==''] = Inr (c', hp', ws')"
    using loop_ok_empty by blast
  have fs': "Fields ''sum-Bg== sum-Bg= len-AAM=''
              = [''sum-Bg==''] @ ''sum-Bg='' # [''len-AAM='']"
    by (simp add: fields_eval)
  have dash': "CHR ''-'' \<in> set ''sum-Bg=''" by simp
  have seen': "fieldName ''sum-Bg='' \<in> fieldName ` set [''sum-Bg=='']"
    by (simp add: field_eval)
  have h': "fieldName ''sum-Bg='' = ''sum''" "fieldValue ''sum-Bg='' = ''Bg=''"
    "snd (DecodeString ''Bg='') = Some 3"
    by (simp_all add: field_eval decode_eval)
  have 2: "NewCheckerForHashes ''sum-Bg== sum-Bg= len-AAM='' exampleHashes = Inl (InvalidBase64 3)"
    using repeated_name_still_validated[OF fs' pre' dash' seen'] unfolding h' by auto
  have fs'': "Fields ''sum-Bg== sum-AA=='' = [''sum-Bg==''] @ ''sum-AA=='' # []"
    by (simp add: fields_eval)
  have dash'': "CHR ''-'' \<in> set ''sum-AA==''" by simp
  have seen'': "fieldName ''sum-AA=='' \<in> fieldName ` set [''sum-Bg=='']"
    by (simp add: field_eval)
  have h'': "fieldName ''sum-AA=='' = ''sum''" "fieldValue ''sum-AA=='' = ''AA==''"
    "snd (DecodeString ''AA=='') = None" "length (fst (DecodeString ''AA=='')) = 1"
    by (simp_all add: field_eval decode_eval)
  have "\<exists>c''. fieldsLoop c' hp' ws' exampleHashes [''sum-AA==''] = Inr (c'', hp', ws')"
    using repeated_name_still_validated[OF fs'' pre' dash'' seen''] h(5) unfolding h'' by auto
  with pre' have 4: "\<exists>c hp ws c'.
        fieldsLoop emptyChecker [] [] exampleHashes [''sum-Bg==''] = Inr (c, hp, ws) \<and>
        fieldsLoop c hp ws exampleHashes [''sum-AA==''] = Inr (c', hp, ws)"
    by blast
  have 3: "NewChecker sha256 sha384 sha512
          ''sha256-y1v31NktLrKLVp1gbS7zjWtYgDICENEw7hKLJHcw4E0= sha256-ixBUOCmT6wnGpEL5AxEsAm9EdJCBj7kF099SUkvIbtB63ydFdgNgXVj784BCcJ2k''
          = Inl (InvalidValue ''ixBUOCmT6wnGpEL5AxEsAm9EdJCBj7kF099SUkvIbtB63ydFdgNgXVj784BCcJ2k''
                   ''sha256'' 32 48)" for sha256 sha384 sha512
  proof -
    let ?t = "presetHashes sha256 sha384 sha512"
    have "list_all (fieldOk ?t) [''sha256-y1v31NktLrKLVp1gbS7zjWtYgDICENEw7hKLJHcw4E0='']"
      by (simp add: field_eval presetHashes_def test_decode_a)
    then obtain c hp ws where
      p: "fieldsLoop emptyChecker [] [] ?t [''sha256-y1v31NktLrKLVp1gbS7zjWtYgDICENEw7hKLJHcw4E0='']
            = Inr (c, hp, ws)"
      using loop_ok_empty by blast
    have f: "Fields ''sha256-y1v31NktLrKLVp1gbS7zjWtYgDICENEw7hKLJHcw4E0= sha256-ixBUOCmT6wnGpEL5AxEsAm9EdJCBj7kF099SUkvIbtB63ydFdgNgXVj784BCcJ2k''
               = [''sha256-y1v31NktLrKLVp1gbS7zjWtYgDICENEw7hKLJHcw4E0='']
                 @ ''sha256-ixBUOCmT6wnGpEL5AxEsAm9EdJCBj7kF099SUkvIbtB63ydFdgNgXVj784BCcJ2k'' # []"
      by (simp add: fields_eval)
    have g: "CHR ''-'' \<in> set ''sha256-ixBUOCmT6wnGpEL5AxEsAm9EdJCBj7kF099SUkvIbtB63ydFdgNgXVj784BCcJ2k''"
      by simp
    have n: "fieldName ''sha256-ixBUOCmT6wnGpEL5AxEsAm9EdJCBj7kF099SUkvIbtB63ydFdgNgXVj784BCcJ2k''
               \<in> fieldName ` set [''sha256-y1v31NktLrKLVp1gbS7zjWtYgDICENEw7hKLJHcw4E0='']"
      by (simp add: field_eval)
    have k: "fieldName ''sha256-ixBUOCmT6wnGpEL5AxEsAm9EdJCBj7kF099SUkvIbtB63ydFdgNgXVj784BCcJ2k'' = ''sha256''"
      "fieldValue ''sha256-ixBUOCmT6wnGpEL5AxEsAm9EdJCBj7kF099SUkvIbtB63ydFdgNgXVj784BCcJ2k''
         = ''ixBUOCmT6wnGpEL5AxEsAm9EdJCBj7kF099SUkvIbtB63ydFdgNgXVj784BCcJ2k''"
      "snd (DecodeString ''ixBUOCmT6wnGpEL5AxEsAm9EdJCBj7kF099SUkvIbtB63ydFdgNgXVj784BCcJ2k'') = None"
      "length (fst (DecodeString ''ixBUOCmT6wnGpEL5AxEsAm9EdJCBj7kF099SUkvIbtB63ydFdgNgXVj784BCcJ2k'')) = 48"
      "?t ''sha256'' = Some \<lparr>hf_Size = 32, hf_digest = sha256\<rparr>"
      by (simp_all add: field_eval presetHashes_def test_decode_e)
    show ?thesis
      using repeated_name_still_validated[OF f p g n] unfolding k NewChecker_def by auto
  qed
  from 1 2 3 4 show ?thesis by blast
qed

text \<open>
  Claim C4. In a constructed checker the keys of \<open>c.expected\<close> are the keys of \<open>c.hashes\<close>,
  namely the names of the descriptor's fields; each name has one hash instance of its own
  however many fields name it (as many instances were created as there are names, and the
  writer forwards to each once); and writing preserves this. \<open>Write\<close> and \<open>Check\<close> assign to
  no field of the checker and to neither map, so the model of \<open>Write\<close> returns only the heap
  and that of \<open>Check\<close> only its error.
\<close>

theorem maps_co_indexed:
  assumes "NewCheckerForHashes sri t = Inr (c, hp)"
  shows "coIndexed c hp \<and>
         dom (c_hashes c) = fieldName ` set (Fields sri) \<and>
         card (dom (c_hashes c)) = length hp \<and>
         (\<forall>bss hp'. writeAll c hp bss = Some hp' \<longrightarrow> coIndexed c hp')"
proof -
  note co = New_coIndexed[OF assms]
  from assms obtain c0 ws where p: "parsed t (Fields sri) c0 hp ws" and ne: "ws \<noteq> []"
    by (rule New_parsed)
  from parsedD(1)[OF p] ne have hp: "hp \<noteq> []" by auto
  from co have w: "writerAddrs (c_w c) = [0..<length hp]" by (simp add: coIndexed_def)
  have "\<forall>bss hp'. writeAll c hp bss = Some hp' \<longrightarrow> coIndexed c hp'"
  proof (intro allI impI)
    fix bss hp' assume "writeAll c hp bss = Some hp'"
    with writeAll_effect[OF w hp, of bss] have "length hp' = length hp" by auto
    with co show "coIndexed c hp'" by (simp add: coIndexed_def)
  qed
  with co coIndexed_card[OF co] hashes_names[OF assms] show ?thesis by blast
qed

theorem maps_co_indexed_witness:
  "\<exists>c hp hp'. NewCheckerForHashes ''sum-Bg== len-AAM= sum-AA=='' exampleHashes = Inr (c, hp) \<and>
     coIndexed c hp \<and> dom (c_hashes c) = {''sum'', ''len''} \<and> length hp = 2 \<and>
     writeAll c hp [[1, 2], [3]] = Some hp' \<and> coIndexed c hp'"
proof -
  from example_new obtain c hp where
    new: "NewCheckerForHashes ''sum-Bg== len-AAM= sum-AA=='' exampleHashes = Inr (c, hp)"
    by blast
  note m = maps_co_indexed[OF new]
  from m have co: "coIndexed c hp" by (rule conjunct1)
  from m have d: "dom (c_hashes c) = fieldName ` set (Fields ''sum-Bg== len-AAM= sum-AA=='')"
    by (rule conjunct1[OF conjunct2])
  from m have cd: "card (dom (c_hashes c)) = length hp"
    by (rule conjunct1[OF conjunct2[OF conjunct2]])
  from m have pres: "\<forall>bss hp'. writeAll c hp bss = Some hp' \<longrightarrow> coIndexed c hp'"
    by (rule conjunct2[OF conjunct2[OF conjunct2]])
  have two: "card {''sum'', ''len''} = 2" by simp
  from d have d': "dom (c_hashes c) = {''sum'', ''len''}" by (simp only: example_names)
  from cd two have l: "length hp = 2" by (simp only: d')
  from co have w: "writerAddrs (c_w c) = [0..<length hp]" by (simp add: coIndexed_def)
  from l have ne: "hp \<noteq> []" by auto
  from writeAll_effect[OF w ne, of "[[1, 2], [3]]"] obtain hp' where
    wa: "writeAll c hp [[1, 2], [3]] = Some hp'" by blast
  with pres have "coIndexed c hp'" by blast
  with new co d' l wa show ?thesis by blast
qed

text \<open>
  Claim C5. On a constructed checker \<open>Write\<close> never fails: after any sequence of writes, a
  further write of any slice returns the length of the slice and a nil error, whether the
  writer is a single hash or a multi-writer over several.
\<close>

theorem write_never_fails:
  assumes "NewCheckerForHashes sri t = Inr (c, hp0)"
  shows "\<exists>hp. writeAll c hp0 bss = Some hp \<and>
           (\<exists>hp'. Write c hp b = Some (hp', length b, None))"
proof -
  from assms obtain c0 ws where p: "parsed t (Fields sri) c0 hp0 ws" and ne: "ws \<noteq> []"
    by (rule New_parsed)
  from parsedD(1)[OF p] ne have hp0: "hp0 \<noteq> []" by auto
  from New_coIndexed[OF assms] have w: "writerAddrs (c_w c) = [0..<length hp0]"
    by (simp add: coIndexed_def)
  let ?hp = "map (appendWritten (concat bss)) hp0"
  have "writeAll c hp0 bss = Some ?hp" by (rule writeAll_effect[OF w hp0])
  moreover have "Write c ?hp b = Some (map (appendWritten b) ?hp, length b, None)"
    by (rule Write_effect) (use w hp0 in simp_all)
  ultimately show ?thesis by blast
qed

theorem write_never_fails_witness:
  "\<exists>c hp0 hp hp'. NewCheckerForHashes ''sum-Bg== len-AAM= sum-AA=='' exampleHashes = Inr (c, hp0) \<and>
     writeAll c hp0 [[1, 2], [3]] = Some hp \<and> Write c hp [4, 5] = Some (hp', 2, None)"
proof -
  from example_new obtain c hp0 where
    new: "NewCheckerForHashes ''sum-Bg== len-AAM= sum-AA=='' exampleHashes = Inr (c, hp0)"
    by blast
  from write_never_fails[OF new, of "[[1, 2], [3]]" "[4, 5]"] new show ?thesis
    by auto
qed

text \<open>
  Claim C6. For a constructed checker and any name, \<open>ExpectedHex\<close> is the list returned by
  \<open>Expected\<close> with each element base64-decoded and re-encoded in lower-case hex; every such
  element decodes without error; and for a name that no field has, both are empty.
\<close>

theorem expected_hex_reencodes:
  assumes "NewCheckerForHashes sri t = Inr (c, hp)"
  shows "ExpectedHex c name =
           map (\<lambda>e. hexEncodeToString (fst (DecodeString e))) (Expected c name) \<and>
         (\<forall>e \<in> set (Expected c name). snd (DecodeString e) = None) \<and>
         (name \<notin> fieldName ` set (Fields sri) \<longrightarrow> Expected c name = [] \<and> ExpectedHex c name = [])"
  using values_decode[OF assms] Expected_valuesFor[OF assms]
  by (simp add: ExpectedHex_def toHex_def valuesFor_absent)

theorem expected_hex_reencodes_witness:
  "(\<exists>c hp. NewCheckerForHashes ''sum-Bg== len-AAM= sum-AA=='' exampleHashes = Inr (c, hp) \<and>
      ExpectedHex c ''sum'' = [''06'', ''00''] \<and> ExpectedHex c ''len'' = [''0003''] \<and>
      ExpectedHex c ''md5'' = []) \<and>
   (\<forall>sha256 sha384 sha512.
      \<exists>c hp. NewChecker sha256 sha384 sha512 testDescriptor = Inr (c, hp) \<and>
        ExpectedHex c ''sha256'' =
          [''cb5bf7d4d92d2eb28b569d606d2ef38d6b5880320210d130ee128b247730e04d'',
           ''e3d870012a86bf0defe68ab63eee14da34763eff4a08c9b6546140a82c045e12''] \<and>
        ExpectedHex c ''sha512'' =
          [''c4ba581047a7e394499d7c66140092ebafac3bfd57ba8d7dd97abab886ab608e2e13b3197af236a53ca82946401553fdb6f7e12534ba62338970c73c724a1193'',
           ''8edf6c4a04cf3859ca4162e49e52445a306ae9468e72367324ec254a06845abd5bf087e606638c259f754e6ad9ce36d4501db5d68c712848f2381407797883a0''] \<and>
        ExpectedHex c ''md5'' = [])"
proof -
  from example_new obtain c hp where
    new: "NewCheckerForHashes ''sum-Bg== len-AAM= sum-AA=='' exampleHashes = Inr (c, hp)"
    by blast
  have e: "Expected c ''sum'' = [''Bg=='', ''AA=='']" "Expected c ''len'' = [''AAM='']"
    "Expected c ''md5'' = []"
    by (simp_all add: Expected_valuesFor[OF new] example_values)
  from expected_hex_reencodes[OF new, of "''sum''"]
    expected_hex_reencodes[OF new, of "''len''"]
    expected_hex_reencodes[OF new, of "''md5''"]
  have "ExpectedHex c ''sum'' = [''06'', ''00''] \<and> ExpectedHex c ''len'' = [''0003''] \<and>
     ExpectedHex c ''md5'' = []"
    unfolding e by (simp add: decode_eval hexEncodeToString_def hextable_def)
  with new have 1:
    "\<exists>c hp. NewCheckerForHashes ''sum-Bg== len-AAM= sum-AA=='' exampleHashes = Inr (c, hp) \<and>
      ExpectedHex c ''sum'' = [''06'', ''00''] \<and> ExpectedHex c ''len'' = [''0003''] \<and>
      ExpectedHex c ''md5'' = []" by blast
  have 2: "\<exists>c hp. NewChecker sha256 sha384 sha512 testDescriptor = Inr (c, hp) \<and>
        ExpectedHex c ''sha256'' =
          [''cb5bf7d4d92d2eb28b569d606d2ef38d6b5880320210d130ee128b247730e04d'',
           ''e3d870012a86bf0defe68ab63eee14da34763eff4a08c9b6546140a82c045e12''] \<and>
        ExpectedHex c ''sha512'' =
          [''c4ba581047a7e394499d7c66140092ebafac3bfd57ba8d7dd97abab886ab608e2e13b3197af236a53ca82946401553fdb6f7e12534ba62338970c73c724a1193'',
           ''8edf6c4a04cf3859ca4162e49e52445a306ae9468e72367324ec254a06845abd5bf087e606638c259f754e6ad9ce36d4501db5d68c712848f2381407797883a0''] \<and>
        ExpectedHex c ''md5'' = []" for sha256 sha384 sha512
  proof -
    from test_new obtain c hp where
      new: "NewCheckerForHashes testDescriptor (presetHashes sha256 sha384 sha512) = Inr (c, hp)"
      unfolding NewChecker_def by blast
    have e: "Expected c ''sha256'' =
          [''y1v31NktLrKLVp1gbS7zjWtYgDICENEw7hKLJHcw4E0='',
           ''49hwASqGvw3v5oq2Pu4U2jR2Pv9KCMm2VGFAqCwEXhI='']"
      "Expected c ''sha512'' =
          [''xLpYEEen45RJnXxmFACS66+sO/1Xuo192Xq6uIarYI4uE7MZevI2pTyoKUZAFVP9tvfhJTS6YjOJcMc8ckoRkw=='',
           ''jt9sSgTPOFnKQWLknlJEWjBq6UaOcjZzJOwlSgaEWr1b8IfmBmOMJZ91TmrZzjbUUB211oxxKEjyOBQHeXiDoA=='']"
      "Expected c ''md5'' = []"
      by (simp_all add: Expected_valuesFor[OF new] test_values)
    from expected_hex_reencodes[OF new, of "''sha256''"]
      expected_hex_reencodes[OF new, of "''sha512''"]
      expected_hex_reencodes[OF new, of "''md5''"]
    have "ExpectedHex c ''sha256'' =
          [''cb5bf7d4d92d2eb28b569d606d2ef38d6b5880320210d130ee128b247730e04d'',
           ''e3d870012a86bf0defe68ab63eee14da34763eff4a08c9b6546140a82c045e12''] \<and>
        ExpectedHex c ''sha512'' =
          [''c4ba581047a7e394499d7c66140092ebafac3bfd57ba8d7dd97abab886ab608e2e13b3197af236a53ca82946401553fdb6f7e12534ba62338970c73c724a1193'',
           ''8edf6c4a04cf3859ca4162e49e52445a306ae9468e72367324ec254a06845abd5bf087e606638c259f754e6ad9ce36d4501db5d68c712848f2381407797883a0''] \<and>
        ExpectedHex c ''md5'' = []"
      unfolding e by (simp add: test_hex_a test_hex_c test_hex_d test_hex_f)
    with new show ?thesis unfolding NewChecker_def by blast
  qed
  from 1 2 show ?thesis by blast
qed

text \<open>
  Claim C7. A descriptor that registers no hash is rejected with the empty-descriptor error:
  the empty string and every string made of white space only (no field), and whenever the loop
  ends with no writer; this error is returned exactly when the descriptor has no field. A
  checker is returned only with at least one hash registered.
\<close>

theorem empty_descriptor_rejected:
  "(list_all isSpaceRune rs \<longrightarrow>
      NewCheckerForHashes (concat rs) t = Inl (InvalidString (concat rs))) \<and>
   (fieldsLoop emptyChecker [] [] t (Fields sri) = Inr (c0, hp0, []) \<longrightarrow>
      NewCheckerForHashes sri t = Inl (InvalidString sri)) \<and>
   (NewCheckerForHashes sri t = Inl (InvalidString sri) \<longleftrightarrow> Fields sri = []) \<and>
   (NewCheckerForHashes sri t = Inr (c, hp) \<longrightarrow>
      hp \<noteq> [] \<and> card (dom (c_hashes c)) = length hp \<and> writerAddrs (c_w c) = [0..<length hp])"
proof -
  have 1: "list_all isSpaceRune rs \<longrightarrow>
      NewCheckerForHashes (concat rs) t = Inl (InvalidString (concat rs))"
    by (simp add: New_empty_iff Fields_spaces)
  have 2: "fieldsLoop emptyChecker [] [] t (Fields sri) = Inr (c0, hp0, []) \<longrightarrow>
      NewCheckerForHashes sri t = Inl (InvalidString sri)"
    by (simp add: NewCheckerForHashes_def)
  have 4: "NewCheckerForHashes sri t = Inr (c, hp) \<longrightarrow>
      hp \<noteq> [] \<and> card (dom (c_hashes c)) = length hp \<and> writerAddrs (c_w c) = [0..<length hp]"
  proof
    assume r: "NewCheckerForHashes sri t = Inr (c, hp)"
    then obtain c0 ws where p: "parsed t (Fields sri) c0 hp ws" and ne: "ws \<noteq> []"
      by (rule New_parsed)
    from parsedD(1)[OF p] ne have "hp \<noteq> []" by auto
    with New_coIndexed[OF r] coIndexed_card[OF New_coIndexed[OF r]]
    show "hp \<noteq> [] \<and> card (dom (c_hashes c)) = length hp \<and> writerAddrs (c_w c) = [0..<length hp]"
      by (simp add: coIndexed_def)
  qed
  from 1 2 4 New_empty_iff[of sri t] show ?thesis by blast
qed

theorem empty_descriptor_rejected_witness:
  "NewCheckerForHashes [] exampleHashes = Inl (InvalidString []) \<and>
   NewCheckerForHashes [CHR 0x20, CHR 0xC2, CHR 0xA0, CHR 0x0A, CHR 0xE2, CHR 0x80, CHR 0x83, CHR 0x09]
     exampleHashes
     = Inl (InvalidString [CHR 0x20, CHR 0xC2, CHR 0xA0, CHR 0x0A, CHR 0xE2, CHR 0x80, CHR 0x83, CHR 0x09]) \<and>
   (\<exists>c hp. NewCheckerForHashes ''sum-Bg== len-AAM= sum-AA=='' exampleHashes = Inr (c, hp) \<and>
      hp \<noteq> [] \<and> card (dom (c_hashes c)) = length hp) \<and>
   (\<forall>sha256 sha384 sha512. NewChecker sha256 sha384 sha512 [] = Inl (InvalidString []))"
proof -
  have l: "fieldsLoop emptyChecker [] [] exampleHashes (Fields []) = Inr (emptyChecker, [], [])"
    by (simp add: Fields_def)
  from empty_descriptor_rejected[of "[]" exampleHashes "[]" emptyChecker "[]"] l
  have 1: "NewCheckerForHashes [] exampleHashes = Inl (InvalidString [])" by blast
  let ?rs = "[[CHR 0x20], [CHR 0xC2, CHR 0xA0], [CHR 0x0A], [CHR 0xE2, CHR 0x80, CHR 0x83], [CHR 0x09]]"
  have sp: "list_all isSpaceRune ?rs"
    by (simp add: isSpaceRune_def asciiSpace_def unicodeSpaces2_def unicodeSpaces3_def)
  from empty_descriptor_rejected[of ?rs exampleHashes] sp
  have 2: "NewCheckerForHashes (concat ?rs) exampleHashes = Inl (InvalidString (concat ?rs))"
    by blast
  from example_new obtain c hp where
    new: "NewCheckerForHashes ''sum-Bg== len-AAM= sum-AA=='' exampleHashes = Inr (c, hp)"
    by blast
  from empty_descriptor_rejected[of _ exampleHashes "''sum-Bg== len-AAM= sum-AA==''" _ _ c hp] new
  have 3: "hp \<noteq> [] \<and> card (dom (c_hashes c)) = length hp" by blast
  have 4: "NewChecker sha256 sha384 sha512 [] = Inl (InvalidString [])" for sha256 sha384 sha512
    using empty_descriptor_rejected[of "[]" "presetHashes sha256 sha384 sha512" "[]"]
    by (simp add: NewChecker_def)
  from 1 2 new 3 4 show ?thesis by auto
qed

text \<open>
  Claim C8. For a constructed checker, \<open>Expected name\<close> is the list of the values of the
  descriptor's fields with that name, in the order of the descriptor; for a name that no field
  has it is empty.
\<close>

theorem expected_in_descriptor_order:
  assumes "NewCheckerForHashes sri t = Inr (c, hp)"
  shows "Expected c name = valuesFor name (Fields sri) \<and>
         (name \<notin> fieldName ` set (Fields sri) \<longrightarrow> Expected c name = [])"
  using Expected_valuesFor[OF assms] by (simp add: valuesFor_absent)

theorem expected_in_descriptor_order_witness:
  "(\<exists>c hp. NewCheckerForHashes ''sum-Bg== len-AAM= sum-AA=='' exampleHashes = Inr (c, hp) \<and>
      Expected c ''sum'' = [''Bg=='', ''AA==''] \<and> Expected c ''len'' = [''AAM=''] \<and>
      Expected c ''md5'' = []) \<and>
   (\<forall>sha256 sha384 sha512.
      \<exists>c hp. NewChecker sha256 sha384 sha512 testDescriptor = Inr (c, hp) \<and>
        Expected c ''sha256'' =
          [''y1v31NktLrKLVp1gbS7zjWtYgDICENEw7hKLJHcw4E0='',
           ''49hwASqGvw3v5oq2Pu4U2jR2Pv9KCMm2VGFAqCwEXhI=''] \<and>
        Expected c ''sha512'' =
          [''xLpYEEen45RJnXxmFACS66+sO/1Xuo192Xq6uIarYI4uE7MZevI2pTyoKUZAFVP9tvfhJTS6YjOJcMc8ckoRkw=='',
           ''jt9sSgTPOFnKQWLknlJEWjBq6UaOcjZzJOwlSgaEWr1b8IfmBmOMJZ91TmrZzjbUUB211oxxKEjyOBQHeXiDoA==''] \<and>
        Expected c ''md5'' = [])"
proof -
  from example_new obtain c hp where
    new: "NewCheckerForHashes ''sum-Bg== len-AAM= sum-AA=='' exampleHashes = Inr (c, hp)"
    by blast
  from expected_in_descriptor_order[OF new, of "''sum''"]
    expected_in_descriptor_order[OF new, of "''len''"]
    expected_in_descriptor_order[OF new, of "''md5''"]
  have "Expected c ''sum'' = [''Bg=='', ''AA==''] \<and> Expected c ''len'' = [''AAM=''] \<and>
     Expected c ''md5'' = []"
    by (simp add: example_values)
  with new have 1:
    "\<exists>c hp. NewCheckerForHashes ''sum-Bg== len-AAM= sum-AA=='' exampleHashes = Inr (c, hp) \<and>
      Expected c ''sum'' = [''Bg=='', ''AA==''] \<and> Expected c ''len'' = [''AAM=''] \<and>
      Expected c ''md5'' = []" by blast
  have 2: "\<exists>c hp. NewChecker sha256 sha384 sha512 testDescriptor = Inr (c, hp) \<and>
        Expected c ''sha256'' =
          [''y1v31NktLrKLVp1gbS7zjWtYgDICENEw7hKLJHcw4E0='',
           ''49hwASqGvw3v5oq2Pu4U2jR2Pv9KCMm2VGFAqCwEXhI=''] \<and>
        Expected c ''sha512'' =
          [''xLpYEEen45RJnXxmFACS66+sO/1Xuo192Xq6uIarYI4uE7MZevI2pTyoKUZAFVP9tvfhJTS6YjOJcMc8ckoRkw=='',
           ''jt9sSgTPOFnKQWLknlJEWjBq6UaOcjZzJOwlSgaEWr1b8IfmBmOMJZ91TmrZzjbUUB211oxxKEjyOBQHeXiDoA==''] \<and>
        Expected c ''md5'' = []" for sha256 sha384 sha512
  proof -
    from test_new obtain c hp where
      new: "NewCheckerForHashes testDescriptor (presetHashes sha256 sha384 sha512) = Inr (c, hp)"
      unfolding NewChecker_def by blast
    from expected_in_descriptor_order[OF new, of "''sha256''"]
      expected_in_descriptor_order[OF new, of "''sha512''"]
      expected_in_descriptor_order[OF new, of "''md5''"]
    have "Expected c ''sha256'' =
          [''y1v31NktLrKLVp1gbS7zjWtYgDICENEw7hKLJHcw4E0='',
           ''49hwASqGvw3v5oq2Pu4U2jR2Pv9KCMm2VGFAqCwEXhI=''] \<and>
        Expected c ''sha512'' =
          [''xLpYEEen45RJnXxmFACS66+sO/1Xuo192Xq6uIarYI4uE7MZevI2pTyoKUZAFVP9tvfhJTS6YjOJcMc8ckoRkw=='',
           ''jt9sSgTPOFnKQWLknlJEWjBq6UaOcjZzJOwlSgaEWr1b8IfmBmOMJZ91TmrZzjbUUB211oxxKEjyOBQHeXiDoA==''] \<and>
        Expected c ''md5'' = []"
      by (simp add: test_values)
    with new show ?thesis unfolding NewChecker_def by blast
  qed
  from 1 2 show ?thesis by blast
qed

text \<open>
  Claim C9. A field that begins with \<open>-\<close> is not reported as malformed: the separator is found
  at index 0, the name is the empty string, and with a table that has no entry for the empty
  name, as both presets, \<open>NewCheckerForHashes\<close> returns the unknown-hash error for the empty
  name.
\<close>

theorem leading_dash_unknown_hash:
  assumes fs: "Fields sri = pre @ (CHR ''-'' # rest) # post"
    and pre: "fieldsLoop emptyChecker [] [] t pre = Inr (c, hp, ws)"
  shows "IndexRune (CHR ''-'' # rest) (CHR ''-'') = 0 \<and>
         (t [] = None \<longrightarrow> NewCheckerForHashes sri t = Inl (UnknownHashType [])) \<and>
         (t = presetHashes sha256 sha384 sha512 \<longrightarrow>
            NewChecker sha256 sha384 sha512 sri = Inl (UnknownHashType [])) \<and>
         (t = presetHashesWithSHA1 sha1 sha256 sha384 sha512 \<longrightarrow>
            NewCheckerWithSHA1 sha1 sha256 sha384 sha512 sri = Inl (UnknownHashType []))"
proof -
  note inv = parsed_from_empty[OF pre]
  have dash: "CHR ''-'' \<in> set (CHR ''-'' # rest)" by simp
  have gen: "NewCheckerForHashes sri t = Inl (UnknownHashType [])" if "t [] = None"
  proof -
    have "fieldsLoop c hp ws t [CHR ''-'' # rest] = Inl (UnknownHashType [])"
      using that by (simp add: step_outcome[OF inv dash] dash_first)
    then show ?thesis by (rule New_prefix_error[OF fs pre])
  qed
  have 0: "IndexRune (CHR ''-'' # rest) (CHR ''-'') = 0" by (simp add: IndexRune_def)
  from 0 gen show ?thesis
    by (auto simp: NewChecker_def NewCheckerWithSHA1_def presets_no_empty_name)
qed

theorem leading_dash_unknown_hash_witness:
  "NewCheckerForHashes ''sum-Bg== -AAAA len-AAM='' exampleHashes = Inl (UnknownHashType []) \<and>
   (\<forall>sha256 sha384 sha512. NewChecker sha256 sha384 sha512 ''-AAAA'' = Inl (UnknownHashType [])) \<and>
   (\<forall>sha1 sha256 sha384 sha512.
      NewCheckerWithSHA1 sha1 sha256 sha384 sha512 ''-AAAA'' = Inl (UnknownHashType []))"
proof -
  have ok: "list_all (fieldOk exampleHashes) [''sum-Bg=='']"
    by (simp add: field_eval exampleHashes_def decode_eval)
  then obtain c hp ws where
    pre: "fieldsLoop emptyChecker [] [] exampleHashes [''sum-Bg==''] = Inr (c, hp, ws)"
    using loop_ok_empty by blast
  have fs: "Fields ''sum-Bg== -AAAA len-AAM='' = [''sum-Bg==''] @ (CHR ''-'' # ''AAAA'') # [''len-AAM='']"
    by (simp add: fields_eval)
  have "exampleHashes [] = None" by (simp add: exampleHashes_def)
  with leading_dash_unknown_hash[OF fs pre]
  have 1: "NewCheckerForHashes ''sum-Bg== -AAAA len-AAM='' exampleHashes = Inl (UnknownHashType [])"
    by blast
  have fs': "Fields ''-AAAA'' = [] @ (CHR ''-'' # ''AAAA'') # []"
    by (simp add: fields_eval)
  have pre': "fieldsLoop emptyChecker [] [] t [] = Inr (emptyChecker, [], [])" for t
    by simp
  have 2: "NewChecker sha256 sha384 sha512 ''-AAAA'' = Inl (UnknownHashType [])"
    for sha256 sha384 sha512
    using leading_dash_unknown_hash[OF fs' pre',
        where t = "presetHashes sha256 sha384 sha512" and ?sha256.0 = sha256
          and ?sha384.0 = sha384 and ?sha512.0 = sha512]
    by blast
  have 3: "NewCheckerWithSHA1 sha1 sha256 sha384 sha512 ''-AAAA'' = Inl (UnknownHashType [])"
    for sha1 sha256 sha384 sha512
    using leading_dash_unknown_hash[OF fs' pre',
        where t = "presetHashesWithSHA1 sha1 sha256 sha384 sha512" and ?sha1.0 = sha1
          and ?sha256.0 = sha256 and ?sha384.0 = sha384 and ?sha512.0 = sha512]
    by blast
  from 1 2 3 show ?thesis by blast
qed

text \<open>
  Claim C10, amended. A field \<open>name-\<close> with an empty value, whose name is in the table with a
  hash of nonzero size, fails with the invalid-length error reporting 0 bytes against that
  size, not with the invalid-base64 error: the empty string decodes to no bytes. (The claim
  states this for every hash of the table; a hash of size zero accepts the empty value.)
\<close>

theorem trailing_dash_invalid_length:
  assumes fs: "Fields sri = pre @ (name @ ''-'') # post"
    and pre: "fieldsLoop emptyChecker [] [] t pre = Inr (c, hp, ws)"
    and nodash: "CHR ''-'' \<notin> set name"
    and tf: "t name = Some f"
    and size: "hf_Size f \<noteq> 0"
  shows "DecodeString (fieldValue (name @ ''-'')) = ([], None) \<and>
         NewCheckerForHashes sri t = Inl (InvalidValue [] name (hf_Size f) 0)"
proof -
  note inv = parsed_from_empty[OF pre]
  have dash: "CHR ''-'' \<in> set (name @ ''-'')" by simp
  have "fieldsLoop c hp ws t [name @ ''-''] = Inl (InvalidValue [] name (hf_Size f) 0)"
    using tf size by (simp add: step_outcome[OF inv dash] name_dash[OF nodash] Decode_empty)
  from New_prefix_error[OF fs pre this] show ?thesis
    by (simp add: name_dash[OF nodash] Decode_empty)
qed

theorem trailing_dash_invalid_length_witness:
  "NewCheckerForHashes ''sum-Bg== len- sum-AA=='' exampleHashes = Inl (InvalidValue [] ''len'' 2 0)"
proof -
  have ok: "list_all (fieldOk exampleHashes) [''sum-Bg=='']"
    by (simp add: field_eval exampleHashes_def decode_eval)
  then obtain c hp ws where
    pre: "fieldsLoop emptyChecker [] [] exampleHashes [''sum-Bg==''] = Inr (c, hp, ws)"
    using loop_ok_empty by blast
  have fs: "Fields ''sum-Bg== len- sum-AA=='' = [''sum-Bg==''] @ (''len'' @ ''-'') # [''sum-AA=='']"
    by (simp add: fields_eval)
  have nodash: "CHR ''-'' \<notin> set ''len''" by simp
  have tf: "exampleHashes ''len'' = Some \<lparr>hf_Size = 2, hf_digest = lenDigest\<rparr>"
    by (simp add: exampleHashes_def)
  from trailing_dash_invalid_length[OF fs pre nodash tf] show ?thesis by simp
qed

text \<open>
  With a hash whose \<open>Size()\<close> is 0 in the table, the field \<open>nil-\<close> passes the length check and
  the checker is constructed.
\<close>

theorem trailing_dash_zero_size_counterexample:
  "Fields ''nil-'' = [] @ (''nil'' @ ''-'') # [] \<and>
   fieldsLoop emptyChecker [] [] [''nil'' \<mapsto> nullHashFunc] [] = Inr (emptyChecker, [], []) \<and>
   [''nil'' \<mapsto> nullHashFunc] ''nil'' = Some nullHashFunc \<and>
   NewCheckerForHashes ''nil-'' [''nil'' \<mapsto> nullHashFunc] =
     Inr (\<lparr>c_expected = [''nil'' \<mapsto> ['''']], c_hashes = [''nil'' \<mapsto> 0], c_w = HashWriter 0\<rparr>,
          [newHash nullHashFunc])"
  by (simp add: fields_eval NewCheckerForHashes_def fieldsLoop_Cons addHash_def field_eval
        validateHash_def Decode_empty Hash_Size_newHash nullHashFunc_def emptyChecker_def)

end
